theory Spec2Isabelle
  imports Complex_Main "HOL-Library.Countable"
begin

section \<open>Costs\<close>

text \<open>
  Movement costs are Python floats that are either finite or \<open>float('inf')\<close>.
  They are modelled as exact reals extended by one infinite value; rounding is not modelled.
  Only the operations the program applies to them are defined.
\<close>

datatype cost = Fin real | PInf

fun cadd :: "cost \<Rightarrow> cost \<Rightarrow> cost" where
  "cadd (Fin a) (Fin b) = Fin (a + b)"
| "cadd _ _ = PInf"

text \<open>Product of a cost with a positive finite factor (the step length).\<close>

fun cmul :: "cost \<Rightarrow> real \<Rightarrow> cost" where
  "cmul (Fin a) d = Fin (a * d)"
| "cmul PInf d = PInf"

fun cless :: "cost \<Rightarrow> cost \<Rightarrow> bool" where
  "cless (Fin a) (Fin b) = (a < b)"
| "cless (Fin a) PInf = True"
| "cless PInf _ = False"

section \<open>terrain.py\<close>

record TerrainType =
  tt_name :: string
  tt_cost :: cost
  tt_color :: string
  tt_walkable :: bool

definition NORMAL :: TerrainType where
  "NORMAL = \<lparr>tt_name = ''normal'', tt_cost = Fin 1, tt_color = ''green'', tt_walkable = True\<rparr>"

definition GRASS :: TerrainType where
  "GRASS = \<lparr>tt_name = ''grass'', tt_cost = Fin (13 / 10), tt_color = ''lightgreen'', tt_walkable = True\<rparr>"

definition SAND :: TerrainType where
  "SAND = \<lparr>tt_name = ''sand'', tt_cost = Fin (17 / 10), tt_color = ''sandybrown'', tt_walkable = True\<rparr>"

definition WATER :: TerrainType where
  "WATER = \<lparr>tt_name = ''water'', tt_cost = PInf, tt_color = ''blue'', tt_walkable = False\<rparr>"

definition MOUNTAIN :: TerrainType where
  "MOUNTAIN = \<lparr>tt_name = ''mountain'', tt_cost = Fin (5 / 2), tt_color = ''gray'', tt_walkable = True\<rparr>"

definition ROAD :: TerrainType where
  "ROAD = \<lparr>tt_name = ''road'', tt_cost = Fin (7 / 10), tt_color = ''darkgray'', tt_walkable = True\<rparr>"

definition terrain_types :: "(string \<times> TerrainType) list" where
  "terrain_types =
     [(''normal'', NORMAL), (''grass'', GRASS), (''sand'', SAND),
      (''water'', WATER), (''mountain'', MOUNTAIN), (''road'', ROAD)]"

text \<open>
  \<open>str.lower()\<close> on the ASCII letters. A character outside \<open>A..Z\<close> is left as it is;
  no non-ASCII character lower-cases to a letter that occurs in a catalogue key, so the
  outcome of the catalogue lookup is the one of Python.
\<close>

definition lower_char :: "char \<Rightarrow> char" where
  "lower_char c =
     (case map_of (zip ''ABCDEFGHIJKLMNOPQRSTUVWXYZ'' ''abcdefghijklmnopqrstuvwxyz'') c of
        Some d \<Rightarrow> d
      | None \<Rightarrow> c)"

definition lower :: "string \<Rightarrow> string" where
  "lower s = map lower_char s"

definition get_terrain :: "string \<Rightarrow> TerrainType" where
  "get_terrain name =
     (case map_of terrain_types (lower name) of Some t \<Rightarrow> t | None \<Rightarrow> NORMAL)"

definition Terrain_get_terrain_cost :: "string \<Rightarrow> cost" where
  "Terrain_get_terrain_cost terrain_name = tt_cost (get_terrain terrain_name)"

definition is_walkable :: "string \<Rightarrow> bool" where
  "is_walkable terrain_name = tt_walkable (get_terrain terrain_name)"

section \<open>node.py\<close>

text \<open>
  A node is identified by its coordinates (\<open>Node.__eq__\<close> and \<open>Node.__hash__\<close>
  use nothing else), so a reference to a node is the pair of its coordinates and the
  fields of the node live in the graph, indexed by that pair.
\<close>

type_synonym cell = "int \<times> int"

record Node =
  terrain_type :: string
  g_cost :: cost
  h_cost :: real
  parent :: "cell option"
  walkable :: bool

definition Node_init :: Node where
  "Node_init = \<lparr>terrain_type = ''normal'', g_cost = PInf, h_cost = 0, parent = None, walkable = True\<rparr>"

definition f_cost :: "Node \<Rightarrow> cost" where
  "f_cost n = cadd (g_cost n) (Fin (h_cost n))"

section \<open>graph.py: Graph\<close>

record Graph =
  width :: int
  height :: int
  nodes :: "cell \<Rightarrow> Node"
  terrain :: "cell \<Rightarrow> string option"

definition Graph_init :: "int \<Rightarrow> int \<Rightarrow> Graph" where
  "Graph_init w h = \<lparr>width = w, height = h, nodes = (\<lambda>_. Node_init), terrain = (\<lambda>_. None)\<rparr>"

definition in_bounds :: "Graph \<Rightarrow> cell \<Rightarrow> bool" where
  "in_bounds G c = (0 \<le> fst c \<and> fst c < width G \<and> 0 \<le> snd c \<and> snd c < height G)"

definition get_node :: "Graph \<Rightarrow> int \<Rightarrow> int \<Rightarrow> Node option" where
  "get_node G x y = (if in_bounds G (x, y) then Some (nodes G (x, y)) else None)"

definition set_terrain :: "Graph \<Rightarrow> int \<Rightarrow> int \<Rightarrow> string \<Rightarrow> Graph" where
  "set_terrain G x y t =
     (if in_bounds G (x, y)
      then G\<lparr>nodes := (nodes G)((x, y) := (nodes G (x, y))\<lparr>terrain_type := t, walkable := is_walkable t\<rparr>),
             terrain := (terrain G)((x, y) := Some t)\<rparr>
      else G)"

definition directions :: "(int \<times> int) list" where
  "directions = [(0, 1), (1, 0), (0, -1), (-1, 0), (1, 1), (1, -1), (-1, -1), (-1, 1)]"

text \<open>
  The loop of \<open>get_neighbors\<close> over the directions, with the two lists it appends to.
\<close>

fun scan_directions :: "Graph \<Rightarrow> cell \<Rightarrow> (int \<times> int) list \<Rightarrow> cell list \<times> cell list \<Rightarrow> cell list \<times> cell list" where
  "scan_directions G c [] acc = acc"
| "scan_directions G c (d # ds) (neighbors, water_neighbors) =
     (let n = (fst c + fst d, snd c + snd d) in
      if \<not> in_bounds G n then scan_directions G c ds (neighbors, water_neighbors)
      else if \<not> walkable (nodes G n) then scan_directions G c ds (neighbors, water_neighbors)
      else if terrain_type (nodes G n) = ''water''
        then scan_directions G c ds (neighbors, water_neighbors @ [n])
        else scan_directions G c ds (neighbors @ [n], water_neighbors))"

definition get_neighbors :: "Graph \<Rightarrow> cell \<Rightarrow> bool \<Rightarrow> cell list" where
  "get_neighbors G c avoid_water =
     (case scan_directions G c directions ([], []) of
        (neighbors, water_neighbors) \<Rightarrow>
          if avoid_water \<and> neighbors \<noteq> [] then neighbors
          else neighbors @ water_neighbors)"

definition get_terrain_cost :: "Graph \<Rightarrow> cell \<Rightarrow> cell \<Rightarrow> cost" where
  "get_terrain_cost G from_node to_node =
     (let terrain_cost = Terrain_get_terrain_cost (terrain_type (nodes G to_node));
          dx = \<bar>fst from_node - fst to_node\<bar>;
          dy = \<bar>snd from_node - snd to_node\<bar>;
          distance = (if dx > 0 \<and> dy > 0 then sqrt 2 else 1)
      in cmul terrain_cost distance)"

definition reset_nodes :: "Graph \<Rightarrow> Graph" where
  "reset_nodes G =
     G\<lparr>nodes := (\<lambda>c. if in_bounds G c
                       then (nodes G c)\<lparr>g_cost := PInf, h_cost := 0, parent := None\<rparr>
                       else nodes G c)\<rparr>"

section \<open>graph.py: PathFinder\<close>

definition heuristic :: "cell \<Rightarrow> cell \<Rightarrow> real" where
  "heuristic node end_node =
     (let dx = \<bar>fst node - fst end_node\<bar>;
          dy = \<bar>snd node - snd end_node\<bar>
      in sqrt (real_of_int (dx * dx + dy * dy)))"

text \<open>
  \<open>reconstruct_path\<close> follows the parent links until it meets \<open>None\<close>. The loop has no
  bound of its own, so it is a partial function: \<open>None\<close> stands for a loop that never
  ends (a cycle of parent links).
\<close>

partial_function (option) reconstruct_loop :: "Graph \<Rightarrow> cell option \<Rightarrow> cell list \<Rightarrow> cell list option" where
  "reconstruct_loop G current path =
     (case current of
        None \<Rightarrow> Some (rev path)
      | Some c \<Rightarrow> reconstruct_loop G (parent (nodes G c)) (path @ [c]))"

definition reconstruct_path :: "Graph \<Rightarrow> cell \<Rightarrow> cell list option" where
  "reconstruct_path G current_node = reconstruct_loop G (Some current_node) []"

text \<open>
  An entry of the priority queue is the tuple \<open>(key, id(node), node)\<close>. Python compares
  tuples lexicographically. \<open>id\<close> is injective on the nodes of a graph (they are all
  alive during a search), so two entries of different nodes never agree on the second
  component and the third component is never compared.
\<close>

type_synonym entry = "cost \<times> nat \<times> cell"

definition entry_less :: "entry \<Rightarrow> entry \<Rightarrow> bool" where
  "entry_less a b = (cless (fst a) (fst b) \<or> (fst a = fst b \<and> fst (snd a) < fst (snd b)))"

text \<open>
  \<open>heapq\<close> keeps the entries in a list that satisfies the heap property; what the search
  observes is that \<open>heappop\<close> removes and returns the least entry. The queue is modelled
  by the list of its entries in the order of insertion.
\<close>

definition heappush :: "entry list \<Rightarrow> entry \<Rightarrow> entry list" where
  "heappush h e = h @ [e]"

fun least_entry :: "entry \<Rightarrow> entry list \<Rightarrow> entry" where
  "least_entry m [] = m"
| "least_entry m (e # es) = least_entry (if entry_less e m then e else m) es"

definition heappop :: "entry list \<Rightarrow> entry \<times> entry list" where
  "heappop h = (let m = least_entry (hd h) (tl h) in (m, remove1 m h))"

text \<open>
  \<open>dijkstra\<close> and \<open>a_star\<close> are the same loop, line by line, except for the key of the
  entries (\<open>g_cost\<close> or \<open>f_cost\<close>) and for the assignments to \<open>h_cost\<close>, which only
  \<open>a_star\<close> makes. The loop is written once, with the algorithm as a parameter.
  The parameter \<open>ident\<close> is Python's \<open>id\<close> on the nodes of the graph.
\<close>

datatype algo = Dijkstra | AStar

record search_state =
  graph :: Graph
  open_set :: "entry list"
  open_set_dict :: "nat \<rightharpoonup> cell"
  closed_set :: "cell set"

definition improve :: "algo \<Rightarrow> cell \<Rightarrow> cell \<Rightarrow> cell \<Rightarrow> cost \<Rightarrow> Graph \<Rightarrow> Graph" where
  "improve A end_node current neighbor tentative_g_cost G =
     G\<lparr>nodes := (nodes G)(neighbor :=
         (case A of
            Dijkstra \<Rightarrow> (nodes G neighbor)\<lparr>g_cost := tentative_g_cost, parent := Some current\<rparr>
          | AStar \<Rightarrow> (nodes G neighbor)\<lparr>g_cost := tentative_g_cost,
                                          h_cost := heuristic neighbor end_node,
                                          parent := Some current\<rparr>))\<rparr>"

definition key_of :: "algo \<Rightarrow> Node \<Rightarrow> cost" where
  "key_of A n = (case A of Dijkstra \<Rightarrow> g_cost n | AStar \<Rightarrow> f_cost n)"

text \<open>The body of the loop over the neighbours of the current node.\<close>

definition relax :: "algo \<Rightarrow> (cell \<Rightarrow> nat) \<Rightarrow> cell \<Rightarrow> cell \<Rightarrow> cell \<Rightarrow> search_state \<Rightarrow> search_state" where
  "relax A ident end_node current neighbor s =
     (if neighbor \<in> closed_set s then s
      else
        let tentative_g_cost =
              cadd (g_cost (nodes (graph s) current)) (get_terrain_cost (graph s) current neighbor)
        in
          if cless tentative_g_cost (g_cost (nodes (graph s) neighbor))
          then
            let G' = improve A end_node current neighbor tentative_g_cost (graph s) in
              if open_set_dict s (ident neighbor) = None
                 \<or> open_set_dict s (ident neighbor) \<noteq> Some neighbor
              then s\<lparr>graph := G',
                     open_set := heappush (open_set s)
                                   (key_of A (nodes G' neighbor), ident neighbor, neighbor),
                     open_set_dict := (open_set_dict s)(ident neighbor \<mapsto> neighbor)\<rparr>
              else s\<lparr>graph := G'\<rparr>
          else s)"

definition expand :: "algo \<Rightarrow> (cell \<Rightarrow> nat) \<Rightarrow> cell \<Rightarrow> bool \<Rightarrow> cell \<Rightarrow> search_state \<Rightarrow> search_state" where
  "expand A ident end_node avoid_water current s =
     fold (relax A ident end_node current) (get_neighbors (graph s) current avoid_water) s"

text \<open>
  One pass through the body of \<open>while open_set\<close>: either the loop returns at the end
  node, or it goes on with a new state.
\<close>

datatype outcome = Found cell search_state | Continue search_state

definition iteration :: "algo \<Rightarrow> (cell \<Rightarrow> nat) \<Rightarrow> cell \<Rightarrow> bool \<Rightarrow> search_state \<Rightarrow> outcome" where
  "iteration A ident end_node avoid_water s =
     (let popped = heappop (open_set s);
          current = snd (snd (fst popped));
          s1 = s\<lparr>open_set := snd popped\<rparr>
      in
        if current = end_node then Found current s1
        else if current \<in> closed_set s1 then Continue s1
        else Continue (expand A ident end_node avoid_water current
                         (s1\<lparr>closed_set := insert current (closed_set s1)\<rparr>)))"

definition grid_cells :: "Graph \<Rightarrow> cell set" where
  "grid_cells G = {c. in_bounds G c}"

definition entry_cells :: "entry list \<Rightarrow> cell set" where
  "entry_cells h = (\<lambda>e. snd (snd e)) ` set h"

definition pending :: "search_state \<Rightarrow> nat" where
  "pending s = card ((grid_cells (graph s) \<union> entry_cells (open_set s)) - closed_set s)"

subsection \<open>The loop ends\<close>

lemma finite_grid_cells: "finite (grid_cells G)"
proof -
  have "grid_cells G \<subseteq> {0..<width G} \<times> {0..<height G}"
    by (auto simp: grid_cells_def in_bounds_def)
  then show ?thesis
    by (rule finite_subset) simp
qed

lemma finite_entry_cells: "finite (entry_cells h)"
  by (simp add: entry_cells_def)

lemma least_entry_mem: "least_entry m es \<in> insert m (set es)"
  by (induction es arbitrary: m) (auto split: if_splits)

lemma heappop_fst_mem: "h \<noteq> [] \<Longrightarrow> fst (heappop h) \<in> set h"
  using least_entry_mem [of "hd h" "tl h"]
  by (cases h) (auto simp: heappop_def Let_def)

lemma heappop_snd_set: "set (snd (heappop h)) \<subseteq> set h"
  by (simp add: heappop_def Let_def set_remove1_subset)

lemma heappop_length: "h \<noteq> [] \<Longrightarrow> Suc (length (snd (heappop h))) = length h"
  using heappop_fst_mem [of h]
  by (simp add: heappop_def Let_def length_remove1 length_pos_if_in_set)

lemma heappop_cells: "entry_cells (snd (heappop h)) \<subseteq> entry_cells h"
  using heappop_snd_set [of h] by (auto simp: entry_cells_def)

lemma scan_directions_in_bounds:
  "scan_directions G c ds acc = (ns, ws) \<Longrightarrow> n \<in> set ns \<union> set ws
   \<Longrightarrow> n \<in> set (fst acc) \<union> set (snd acc) \<or> (in_bounds G n \<and> walkable (nodes G n))"
proof (induction G c ds acc arbitrary: ns ws rule: scan_directions.induct)
  case (1 G c acc)
  then show ?case by auto
next
  case (2 G c d ds neighbors water_neighbors)
  then show ?case
    by (fastforce simp: Let_def split: if_splits)
qed

lemma get_neighbors_sound:
  assumes "n \<in> set (get_neighbors G c a)"
  shows "in_bounds G n \<and> walkable (nodes G n)"
proof -
  obtain ns ws where sc: "scan_directions G c directions ([], []) = (ns, ws)"
    by (cases "scan_directions G c directions ([], [])") auto
  from assms sc have "n \<in> set ns \<union> set ws"
    by (auto simp: get_neighbors_def split: if_splits)
  with scan_directions_in_bounds [OF sc] show ?thesis by auto
qed

lemma improve_dims [simp]:
  "width (improve A e c n t G) = width G" "height (improve A e c n t G) = height G"
  by (simp_all add: improve_def)

lemma in_bounds_cong: "width G' = width G \<Longrightarrow> height G' = height G \<Longrightarrow> in_bounds G' = in_bounds G"
  by (auto simp: in_bounds_def fun_eq_iff)

lemma relax_dims [simp]:
  "width (graph (relax A ident e c n s)) = width (graph s)"
  "height (graph (relax A ident e c n s)) = height (graph s)"
  by (simp_all add: relax_def Let_def)

lemma relax_closed [simp]: "closed_set (relax A ident e c n s) = closed_set s"
  by (simp add: relax_def Let_def)

lemma relax_cells: "entry_cells (open_set (relax A ident e c n s)) \<subseteq> insert n (entry_cells (open_set s))"
  by (auto simp: relax_def Let_def entry_cells_def heappush_def)

lemma fold_relax_dims [simp]:
  "width (graph (fold (relax A ident e c) ns s)) = width (graph s)"
  "height (graph (fold (relax A ident e c) ns s)) = height (graph s)"
  by (induction ns arbitrary: s) simp_all

lemma fold_relax_closed [simp]: "closed_set (fold (relax A ident e c) ns s) = closed_set s"
  by (induction ns arbitrary: s) simp_all

lemma fold_relax_cells:
  "entry_cells (open_set (fold (relax A ident e c) ns s)) \<subseteq> set ns \<union> entry_cells (open_set s)"
proof (induction ns arbitrary: s)
  case Nil
  then show ?case by simp
next
  case (Cons n ns)
  from Cons.IH [of "relax A ident e c n s"] relax_cells [of A ident e c n s]
  show ?case by auto
qed

lemma grid_cells_cong: "width G' = width G \<Longrightarrow> height G' = height G \<Longrightarrow> grid_cells G' = grid_cells G"
  by (simp add: grid_cells_def in_bounds_def)

lemma expand_grid_cells [simp]: "grid_cells (graph (expand A ident e a c s)) = grid_cells (graph s)"
  unfolding expand_def by (rule grid_cells_cong) simp_all

lemma expand_closed [simp]: "closed_set (expand A ident e a c s) = closed_set s"
  by (simp add: expand_def)

lemma expand_cells:
  "entry_cells (open_set (expand A ident e a c s)) \<subseteq> grid_cells (graph s) \<union> entry_cells (open_set s)"
  using fold_relax_cells [of A ident e c "get_neighbors (graph s) c a" s]
  by (auto simp: expand_def grid_cells_def dest: get_neighbors_sound)

lemma iteration_decreases:
  assumes ne: "open_set s \<noteq> []" and it: "iteration A ident e a s = Continue s'"
  shows "pending s' < pending s \<or> (pending s' = pending s \<and> length (open_set s') < length (open_set s))"
proof -
  define cur where "cur = snd (snd (fst (heappop (open_set s))))"
  define s1 where "s1 = s\<lparr>open_set := snd (heappop (open_set s))\<rparr>"
  have fin: "finite ((grid_cells (graph s) \<union> entry_cells (open_set s)) - closed_set s)"
    by (simp add: finite_grid_cells finite_entry_cells)
  have cur_in: "cur \<in> entry_cells (open_set s)"
    using heappop_fst_mem [OF ne] by (auto simp: cur_def entry_cells_def)
  have cells1: "entry_cells (open_set s1) \<subseteq> entry_cells (open_set s)"
    by (simp add: s1_def heappop_cells)
  have len1: "length (open_set s1) < length (open_set s)"
    using heappop_length [OF ne] by (simp add: s1_def)
  show ?thesis
  proof (cases "cur \<in> closed_set s")
    case True
    with it have s': "s' = s1"
      by (auto simp: iteration_def Let_def cur_def s1_def split: if_splits)
    have "(grid_cells (graph s1) \<union> entry_cells (open_set s1)) - closed_set s1
          \<subseteq> (grid_cells (graph s) \<union> entry_cells (open_set s)) - closed_set s"
      using cells1 by (auto simp: s1_def)
    then have "pending s1 \<le> pending s"
      unfolding pending_def by (rule card_mono [OF fin])
    with len1 s' show ?thesis by auto
  next
    case False
    define s2 where "s2 = s1\<lparr>closed_set := insert cur (closed_set s1)\<rparr>"
    from False it have s': "s' = expand A ident e a cur s2"
      by (auto simp: iteration_def Let_def cur_def s1_def s2_def split: if_splits)
    have "entry_cells (open_set s') \<subseteq> grid_cells (graph s) \<union> entry_cells (open_set s)"
      using expand_cells [of A ident e a cur s2] cells1 by (auto simp: s' s2_def s1_def)
    then have "(grid_cells (graph s') \<union> entry_cells (open_set s')) - closed_set s'
          \<subset> (grid_cells (graph s) \<union> entry_cells (open_set s)) - closed_set s"
      using cur_in False by (auto simp: s' s2_def s1_def)
    then have "pending s' < pending s"
      unfolding pending_def by (rule psubset_card_mono [OF fin])
    then show ?thesis by simp
  qed
qed

text \<open>The loop \<open>while open_set\<close>; it returns the node it stopped at, if any, and the last state.\<close>

function search_loop :: "algo \<Rightarrow> (cell \<Rightarrow> nat) \<Rightarrow> cell \<Rightarrow> bool \<Rightarrow> search_state \<Rightarrow> cell option \<times> search_state" where
  "search_loop A ident end_node avoid_water s =
     (if open_set s = [] then (None, s)
      else
        (case iteration A ident end_node avoid_water s of
           Found current s' \<Rightarrow> (Some current, s')
         | Continue s' \<Rightarrow> search_loop A ident end_node avoid_water s'))"
  by pat_completeness auto
termination
proof (relation "(\<lambda>(A, ident, e, a, s). pending s) <*mlex*>
                 measure (\<lambda>(A, ident, e, a, s). length (open_set s))")
  show "wf ((\<lambda>(A, ident, e, a, s). pending s) <*mlex*>
            measure (\<lambda>(A, ident, e, a, s). length (open_set s)))"
    by (rule wf_mlex) simp
next
  fix A :: algo and ident :: "cell \<Rightarrow> nat" and end_node :: cell and avoid_water :: bool
    and s s' :: search_state
  assume "open_set s \<noteq> []" and "iteration A ident end_node avoid_water s = Continue s'"
  from iteration_decreases [OF this]
  show "((A, ident, end_node, avoid_water, s'), (A, ident, end_node, avoid_water, s))
          \<in> (\<lambda>(A, ident, e, a, s). pending s) <*mlex*>
             measure (\<lambda>(A, ident, e, a, s). length (open_set s))"
    by (simp add: mlex_iff)
qed

declare search_loop.simps [simp del]

text \<open>
  The lines before the loop: \<open>reset_nodes\<close>, the assignments to the start node, and the
  first entry of the queue.
\<close>

definition init_state :: "algo \<Rightarrow> (cell \<Rightarrow> nat) \<Rightarrow> Graph \<Rightarrow> cell \<Rightarrow> cell \<Rightarrow> search_state" where
  "init_state A ident G start end_node =
     (let G1 = reset_nodes G;
          G2 = G1\<lparr>nodes := (nodes G1)(start :=
                 (case A of
                    Dijkstra \<Rightarrow> (nodes G1 start)\<lparr>g_cost := Fin 0\<rparr>
                  | AStar \<Rightarrow> (nodes G1 start)\<lparr>g_cost := Fin 0, h_cost := heuristic start end_node\<rparr>))\<rparr>
      in \<lparr>graph = G2,
          open_set = [(key_of A (nodes G2 start), ident start, start)],
          open_set_dict = [ident start \<mapsto> start],
          closed_set = {}\<rparr>)"

text \<open>
  A search returns the path and the closed set; the graph it leaves behind (the fields of
  the nodes are assigned in place) is returned with them, so that a later call can start
  from it. The result is \<open>None\<close> when the reconstruction of the path does not end.
\<close>

definition search :: "algo \<Rightarrow> Graph \<Rightarrow> (cell \<Rightarrow> nat) \<Rightarrow> cell \<Rightarrow> cell \<Rightarrow> bool \<Rightarrow> (cell list \<times> cell set \<times> Graph) option" where
  "search A G ident start end_node avoid_water =
     (case search_loop A ident end_node avoid_water (init_state A ident G start end_node) of
        (Some current, s) \<Rightarrow>
          map_option (\<lambda>path. (path, closed_set s, graph s)) (reconstruct_path (graph s) current)
      | (None, s) \<Rightarrow> Some ([], closed_set s, graph s))"

definition dijkstra :: "Graph \<Rightarrow> (cell \<Rightarrow> nat) \<Rightarrow> cell \<Rightarrow> cell \<Rightarrow> bool \<Rightarrow> (cell list \<times> cell set \<times> Graph) option" where
  "dijkstra = search Dijkstra"

definition a_star :: "Graph \<Rightarrow> (cell \<Rightarrow> nat) \<Rightarrow> cell \<Rightarrow> cell \<Rightarrow> bool \<Rightarrow> (cell list \<times> cell set \<times> Graph) option" where
  "a_star = search AStar"

text \<open>What a caller reads from a result: the path and the closed set.\<close>

definition path_and_closed :: "(cell list \<times> cell set \<times> Graph) option \<Rightarrow> (cell list \<times> cell set) option" where
  "path_and_closed r = map_option (\<lambda>(path, closed, G). (path, closed)) r"

section \<open>The specification's wording of the neighbour query and of the edge cost\<close>

definition neighbors_spec :: "Graph \<Rightarrow> cell \<Rightarrow> bool \<Rightarrow> cell list" where
  "neighbors_spec G c avoid_hazard =
     (let candidates = map (\<lambda>d. (fst c + fst d, snd c + snd d)) directions;
          kept = filter (\<lambda>n. in_bounds G n \<and> walkable (nodes G n)) candidates;
          safe = filter (\<lambda>n. terrain_type (nodes G n) \<noteq> ''water'') kept;
          hazard = filter (\<lambda>n. terrain_type (nodes G n) = ''water'') kept
      in if avoid_hazard \<and> safe \<noteq> [] then safe else safe @ hazard)"

definition terrain_multiplier :: "string \<Rightarrow> cost" where
  "terrain_multiplier t = tt_cost (get_terrain t)"

definition edge_cost_spec :: "string \<Rightarrow> bool \<Rightarrow> cost" where
  "edge_cost_spec destination_terrain diagonal =
     cmul (terrain_multiplier destination_terrain) (if diagonal then sqrt 2 else 1)"

lemma scan_directions_filter:
  "scan_directions G c ds (ns, ws) =
     (ns @ filter (\<lambda>n. terrain_type (nodes G n) \<noteq> ''water'')
             (filter (\<lambda>n. in_bounds G n \<and> walkable (nodes G n))
                (map (\<lambda>d. (fst c + fst d, snd c + snd d)) ds)),
      ws @ filter (\<lambda>n. terrain_type (nodes G n) = ''water'')
             (filter (\<lambda>n. in_bounds G n \<and> walkable (nodes G n))
                (map (\<lambda>d. (fst c + fst d, snd c + snd d)) ds)))"
  by (induction ds arbitrary: ns ws) (simp_all add: Let_def)

section \<open>The neighbour query\<close>

text \<open>
  C5. For every cell and every value of the flag, \<open>get_neighbors\<close> returns what the
  specification describes: the eight surrounding positions taken in the fixed order of
  \<open>directions\<close>, without those out of bounds or not walkable, split into the safe group
  (terrain not \<open>water\<close>) and the hazard group (terrain \<open>water\<close>); the safe group alone
  when the flag is set and the group is not empty, the safe group followed by the hazard
  group otherwise. The eight directions are distinct and each is one step away.
\<close>

theorem get_neighbors_refines_spec:
  "get_neighbors G c avoid_water = neighbors_spec G c avoid_water
   \<and> map (\<lambda>d. max \<bar>fst d\<bar> \<bar>snd d\<bar>) directions = replicate 8 1
   \<and> distinct directions"
proof -
  have "get_neighbors G c avoid_water = neighbors_spec G c avoid_water"
    by (simp add: get_neighbors_def neighbors_spec_def scan_directions_filter Let_def)
  moreover have "map (\<lambda>d. max \<bar>fst d\<bar> \<bar>snd d\<bar>) directions = replicate 8 1"
    by (simp add: directions_def numeral_eq_Suc)
  moreover have "distinct directions"
    by (simp add: directions_def)
  ultimately show ?thesis by simp
qed

section \<open>The edge cost\<close>

text \<open>
  C6. The cost of the edge from one cell to another is the multiplier of the terrain of
  the destination times a step factor, which is \<open>sqrt 2\<close> exactly when both coordinates
  differ and \<open>1\<close> otherwise. It is a function of the destination's terrain and of
  whether the move is diagonal, and of nothing else.
\<close>

theorem get_terrain_cost_formula:
  "get_terrain_cost G from_node to_node =
     cmul (tt_cost (get_terrain (terrain_type (nodes G to_node))))
          (if fst from_node \<noteq> fst to_node \<and> snd from_node \<noteq> snd to_node then sqrt 2 else 1)
   \<and> get_terrain_cost G from_node to_node =
     edge_cost_spec (terrain_type (nodes G to_node))
        (fst from_node \<noteq> fst to_node \<and> snd from_node \<noteq> snd to_node)"
  by (simp add: get_terrain_cost_def edge_cost_spec_def terrain_multiplier_def
        Terrain_get_terrain_cost_def Let_def)

section \<open>The terrain catalogue\<close>

lemma lower_char_idem: "lower_char (lower_char c) = lower_char c"
  by (auto simp: lower_char_def split: if_splits)

lemma lower_idem: "lower (lower s) = lower s"
  by (simp add: lower_def lower_char_idem)

lemma get_terrain_lower: "get_terrain (lower name) = get_terrain name"
  by (simp add: get_terrain_def lower_idem)

lemma set_terrain_dims [simp]:
  "width (set_terrain G x y t) = width G" "height (set_terrain G x y t) = height G"
  by (simp_all add: set_terrain_def)

lemma get_neighbors_cong:
  assumes "width G' = width G" "height G' = height G"
    and "\<And>n. walkable (nodes G' n) = walkable (nodes G n)"
    and "\<And>n. (terrain_type (nodes G' n) = ''water'') = (terrain_type (nodes G n) = ''water'')"
  shows "get_neighbors G' c av = get_neighbors G c av"
proof -
  have "in_bounds G' = in_bounds G"
    using assms(1,2) by (simp add: in_bounds_def fun_eq_iff)
  then show ?thesis
    by (simp add: get_neighbors_def scan_directions_filter assms(3,4))
qed

text \<open>
  C7. The lookup in the catalogue does not depend on the case of the name, and a name
  that is not in the catalogue gives the entry \<open>normal\<close>: cost 1 and walkable. A cell
  of the grid that \<open>set_terrain\<close> gives such a name carries that name, is walkable, and
  is entered at cost 1 times the step factor, whatever it was before; it has the
  walkability, the edge costs and the neighbours of the same cell set to \<open>normal\<close>, from
  which it differs in the stored name only.
\<close>

theorem unknown_terrain_is_normal:
  assumes unknown: "lower name \<notin> set (map fst terrain_types)"
  shows "get_terrain (lower other) = get_terrain other
    \<and> get_terrain name = NORMAL
    \<and> Terrain_get_terrain_cost name = Fin 1
    \<and> is_walkable name
    \<and> walkable (nodes (set_terrain G x y name) c) = walkable (nodes (set_terrain G x y ''normal'') c)
    \<and> get_terrain_cost (set_terrain G x y name) a b = get_terrain_cost (set_terrain G x y ''normal'') a b
    \<and> get_neighbors (set_terrain G x y name) c av = get_neighbors (set_terrain G x y ''normal'') c av
    \<and> (lower other = lower other' \<longrightarrow> get_terrain other = get_terrain other')
    \<and> (in_bounds G (x, y) \<longrightarrow>
          terrain_type (nodes (set_terrain G x y name) (x, y)) = name
        \<and> walkable (nodes (set_terrain G x y name) (x, y))
        \<and> get_terrain_cost (set_terrain G x y name) a (x, y)
            = Fin (if fst a \<noteq> x \<and> snd a \<noteq> y then sqrt 2 else 1)
        \<and> get_terrain_cost (set_terrain G x y ''normal'') a (x, y)
            = Fin (if fst a \<noteq> x \<and> snd a \<noteq> y then sqrt 2 else 1)
        \<and> walkable (nodes (set_terrain G x y ''normal'') (x, y))
        \<and> nodes (set_terrain G x y name) (x, y)
            = (nodes (set_terrain G x y ''normal'') (x, y))\<lparr>terrain_type := name\<rparr>)"
proof -
  have none: "map_of terrain_types (lower name) = None"
    using unknown by (simp add: map_of_eq_None_iff)
  have gt: "get_terrain name = NORMAL"
    by (simp add: get_terrain_def none)
  have gn: "get_terrain ''normal'' = NORMAL"
    by (simp add: get_terrain_def lower_def lower_char_def terrain_types_def)
  have cost: "Terrain_get_terrain_cost name = Fin 1"
    by (simp add: Terrain_get_terrain_cost_def gt NORMAL_def)
  have walk: "is_walkable name"
    by (simp add: is_walkable_def gt NORMAL_def)
  have walkn: "is_walkable ''normal''"
    by (simp add: is_walkable_def gn NORMAL_def)
  have "lower ''water'' \<in> set (map fst terrain_types)"
    by (simp add: lower_def lower_char_def terrain_types_def)
  with unknown have nw: "name \<noteq> ''water''" by auto
  have w: "walkable (nodes (set_terrain G x y name) n) = walkable (nodes (set_terrain G x y ''normal'') n)" for n
    by (simp add: set_terrain_def walk walkn)
  have t: "(terrain_type (nodes (set_terrain G x y name) n) = ''water'')
         = (terrain_type (nodes (set_terrain G x y ''normal'') n) = ''water'')" for n
    using nw by (simp add: set_terrain_def)
  have c: "get_terrain_cost (set_terrain G x y name) a b = get_terrain_cost (set_terrain G x y ''normal'') a b"
    by (simp add: get_terrain_cost_def set_terrain_def Terrain_get_terrain_cost_def gt gn)
  have n: "get_neighbors (set_terrain G x y name) c av = get_neighbors (set_terrain G x y ''normal'') c av"
    by (rule get_neighbors_cong) (simp_all add: w t)
  have ci: "lower other = lower other' \<longrightarrow> get_terrain other = get_terrain other'"
    by (simp add: get_terrain_def)
  have cell: "in_bounds G (x, y) \<longrightarrow>
          terrain_type (nodes (set_terrain G x y name) (x, y)) = name
        \<and> walkable (nodes (set_terrain G x y name) (x, y))
        \<and> get_terrain_cost (set_terrain G x y name) a (x, y)
            = Fin (if fst a \<noteq> x \<and> snd a \<noteq> y then sqrt 2 else 1)
        \<and> get_terrain_cost (set_terrain G x y ''normal'') a (x, y)
            = Fin (if fst a \<noteq> x \<and> snd a \<noteq> y then sqrt 2 else 1)
        \<and> walkable (nodes (set_terrain G x y ''normal'') (x, y))
        \<and> nodes (set_terrain G x y name) (x, y)
            = (nodes (set_terrain G x y ''normal'') (x, y))\<lparr>terrain_type := name\<rparr>"
    by (simp add: set_terrain_def walk walkn get_terrain_cost_def Terrain_get_terrain_cost_def
          gt gn NORMAL_def)
  show ?thesis
    using get_terrain_lower gt cost walk w c n ci cell by simp
qed

text \<open>
  The name \<open>Lava\<close> is not in the catalogue. The cell it is given to was water before,
  not walkable; afterwards it is walkable and the diagonal step into it costs \<open>sqrt 2\<close>.
\<close>

theorem unknown_terrain_is_normal_witness:
  "lower ''Lava'' \<notin> set (map fst terrain_types)
   \<and> in_bounds (set_terrain (Graph_init 2 2) 1 1 ''water'') (1, 1)
   \<and> \<not> walkable (nodes (set_terrain (Graph_init 2 2) 1 1 ''water'') (1, 1))
   \<and> get_terrain_cost (set_terrain (Graph_init 2 2) 1 1 ''water'') (0, 0) (1, 1) = PInf
   \<and> lower ''WATER'' = lower ''water''
   \<and> get_terrain ''WATER'' = get_terrain ''water''
   \<and> get_terrain ''Lava'' = NORMAL
   \<and> Terrain_get_terrain_cost ''Lava'' = Fin 1
   \<and> is_walkable ''Lava''
   \<and> terrain_type (nodes (set_terrain (set_terrain (Graph_init 2 2) 1 1 ''water'') 1 1 ''Lava'') (1, 1))
       = ''Lava''
   \<and> walkable (nodes (set_terrain (set_terrain (Graph_init 2 2) 1 1 ''water'') 1 1 ''Lava'') (1, 1))
   \<and> get_terrain_cost (set_terrain (set_terrain (Graph_init 2 2) 1 1 ''water'') 1 1 ''Lava'') (0, 0) (1, 1)
       = Fin (sqrt 2)
   \<and> get_terrain_cost (set_terrain (set_terrain (Graph_init 2 2) 1 1 ''water'') 1 1 ''Lava'') (0, 1) (1, 1)
       = Fin 1
   \<and> get_neighbors (set_terrain (set_terrain (Graph_init 2 2) 1 1 ''water'') 1 1 ''Lava'') (0, 0) True
       = get_neighbors (set_terrain (set_terrain (Graph_init 2 2) 1 1 ''water'') 1 1 ''normal'') (0, 0) True"
proof -
  define W where "W = set_terrain (Graph_init 2 2) 1 1 ''water''"
  define L where "L = set_terrain W 1 1 ''Lava''"
  have h: "lower ''Lava'' \<notin> set (map fst terrain_types)"
    by (simp add: lower_def lower_char_def terrain_types_def)
  have ib: "in_bounds W (1, 1)"
    by (simp add: W_def in_bounds_def set_terrain_def Graph_init_def)
  have before: "\<not> walkable (nodes W (1, 1))"
      "get_terrain_cost W (0, 0) (1, 1) = PInf"
    by (simp_all add: W_def in_bounds_def set_terrain_def Graph_init_def is_walkable_def
          get_terrain_def lower_def lower_char_def terrain_types_def WATER_def
          get_terrain_cost_def Terrain_get_terrain_cost_def)
  have lw: "lower ''WATER'' = lower ''water''"
    by (simp add: lower_def lower_char_def)
  note t1 = unknown_terrain_is_normal [OF h, of "''WATER''" W 1 1 "(0, 0)" "(0, 0)" "(1, 1)" True "''water''"]
  note t2 = unknown_terrain_is_normal [OF h, of "''WATER''" W 1 1 "(0, 0)" "(0, 1)" "(1, 1)" True "''water''"]
  from t1 lw have cat: "get_terrain ''WATER'' = get_terrain ''water''"
      "get_terrain ''Lava'' = NORMAL" "Terrain_get_terrain_cost ''Lava'' = Fin 1" "is_walkable ''Lava''"
    by blast+
  from t1 ib have cell: "terrain_type (nodes L (1, 1)) = ''Lava''" "walkable (nodes L (1, 1))"
    unfolding L_def by blast+
  from t1 ib have "get_terrain_cost L (0, 0) (1, 1)
      = Fin (if fst (0 :: int, 0 :: int) \<noteq> 1 \<and> snd (0 :: int, 0 :: int) \<noteq> 1 then sqrt 2 else 1)"
    unfolding L_def by blast
  then have d: "get_terrain_cost L (0, 0) (1, 1) = Fin (sqrt 2)" by simp
  from t2 ib have "get_terrain_cost L (0, 1) (1, 1)
      = Fin (if fst (0 :: int, 1 :: int) \<noteq> 1 \<and> snd (0 :: int, 1 :: int) \<noteq> 1 then sqrt 2 else 1)"
    unfolding L_def by blast
  then have o: "get_terrain_cost L (0, 1) (1, 1) = Fin 1" by simp
  from t1 have nb: "get_neighbors L (0, 0) True = get_neighbors (set_terrain W 1 1 ''normal'') (0, 0) True"
    unfolding L_def by blast
  show ?thesis
    unfolding W_def [symmetric] L_def [symmetric]
    by (intro conjI h ib before lw cat cell d o nb)
qed

section \<open>Searching from a cell to itself\<close>

lemma reconstruct_root:
  "parent (nodes G c) = None \<Longrightarrow> reconstruct_path G c = Some [c]"
  by (simp add: reconstruct_path_def reconstruct_loop.simps)

lemma search_same_cell:
  assumes "in_bounds G c"
  shows "path_and_closed (search A G ident c c av) = Some ([c], {})"
proof -
  define s0 where "s0 = init_state A ident G c c"
  have os: "open_set s0 = [(key_of A (nodes (graph s0) c), ident c, c)]"
    by (simp add: s0_def init_state_def Let_def)
  have cl: "closed_set s0 = {}"
    by (simp add: s0_def init_state_def Let_def)
  have it: "iteration A ident c av s0 = Found c (s0\<lparr>open_set := []\<rparr>)"
    by (simp add: iteration_def os heappop_def Let_def)
  have sl: "search_loop A ident c av s0 = (Some c, s0\<lparr>open_set := []\<rparr>)"
    by (subst search_loop.simps) (simp add: os it)
  have "parent (nodes (graph s0) c) = None"
    using assms by (cases A) (simp_all add: s0_def init_state_def Let_def reset_nodes_def)
  then have "reconstruct_path (graph (s0\<lparr>open_set := []\<rparr>)) c = Some [c]"
    by (simp add: reconstruct_root)
  with sl cl show ?thesis
    by (simp add: search_def path_and_closed_def s0_def [symmetric])
qed

text \<open>
  C10. When start and end are the same cell of the grid, \<open>dijkstra\<close> and \<open>a_star\<close>
  return the path that consists of that cell and an empty closed set, whatever the
  terrain of the cell and whether or not it is walkable.
\<close>

theorem start_equals_end:
  assumes "in_bounds G c"
  shows "path_and_closed (dijkstra G ident c c avoid_water) = Some ([c], {})
       \<and> path_and_closed (a_star G ident c c avoid_water) = Some ([c], {})"
  using assms by (simp add: dijkstra_def a_star_def search_same_cell)

text \<open>A cell of water, which is not walkable, in a grid of two by two.\<close>

theorem start_equals_end_witness:
  "in_bounds (set_terrain (Graph_init 2 2) 1 1 ''water'') (1, 1)
   \<and> \<not> walkable (nodes (set_terrain (Graph_init 2 2) 1 1 ''water'') (1, 1))
   \<and> path_and_closed (dijkstra (set_terrain (Graph_init 2 2) 1 1 ''water'') (\<lambda>c. 0) (1, 1) (1, 1) True)
       = Some ([(1, 1)], {})
   \<and> path_and_closed (a_star (set_terrain (Graph_init 2 2) 1 1 ''water'') (\<lambda>c. 0) (1, 1) (1, 1) True)
       = Some ([(1, 1)], {})"
proof -
  have h: "in_bounds (set_terrain (Graph_init 2 2) 1 1 ''water'') (1, 1)"
    by (simp add: in_bounds_def set_terrain_def Graph_init_def)
  have w: "\<not> walkable (nodes (set_terrain (Graph_init 2 2) 1 1 ''water'') (1, 1))"
    by (simp add: in_bounds_def set_terrain_def Graph_init_def is_walkable_def get_terrain_def
          lower_def lower_char_def terrain_types_def WATER_def)
  from start_equals_end [OF h, of "\<lambda>c. 0" True] h w show ?thesis by simp
qed

section \<open>What holds throughout a search\<close>

text \<open>
  The state of the loop after a given number of passes, for statements about the states
  a search goes through; the loop itself is \<open>search_loop\<close>.
\<close>

fun iterate_loop :: "nat \<Rightarrow> algo \<Rightarrow> (cell \<Rightarrow> nat) \<Rightarrow> cell \<Rightarrow> bool \<Rightarrow> search_state \<Rightarrow> search_state" where
  "iterate_loop 0 A ident end_node avoid_water s = s"
| "iterate_loop (Suc k) A ident end_node avoid_water s =
     (if open_set s = [] then s
      else
        (case iteration A ident end_node avoid_water s of
           Found current s' \<Rightarrow> s'
         | Continue s' \<Rightarrow> iterate_loop k A ident end_node avoid_water s'))"

text \<open>
  With respect to the graph \<open>G0\<close> the search was called on: a search assigns only the
  search fields of the cells of the grid (and of the start node); the closed set and the
  queue hold the start node and walkable cells of the grid, and never the end node in
  the closed set; the parent of a cell is closed and has a smaller \<open>g_cost\<close>.
\<close>

definition frame_ok :: "Graph \<Rightarrow> cell \<Rightarrow> Graph \<Rightarrow> bool" where
  "frame_ok G0 start G \<longleftrightarrow>
     width G = width G0 \<and> height G = height G0 \<and> terrain G = terrain G0
     \<and> (\<forall>c. terrain_type (nodes G c) = terrain_type (nodes G0 c)
            \<and> walkable (nodes G c) = walkable (nodes G0 c))
     \<and> (\<forall>c. \<not> in_bounds G0 c \<longrightarrow> c \<noteq> start \<longrightarrow> nodes G c = nodes G0 c)"

definition cells_ok :: "Graph \<Rightarrow> cell \<Rightarrow> cell \<Rightarrow> search_state \<Rightarrow> bool" where
  "cells_ok G0 start end_node s \<longleftrightarrow>
     end_node \<notin> closed_set s
     \<and> (\<forall>c \<in> closed_set s \<union> entry_cells (open_set s).
            c = start \<or> (in_bounds G0 c \<and> walkable (nodes G0 c)))"

definition parents_ok :: "Graph \<Rightarrow> search_state \<Rightarrow> bool" where
  "parents_ok G0 s \<longleftrightarrow>
     (\<forall>c p. in_bounds G0 c \<longrightarrow> parent (nodes (graph s) c) = Some p \<longrightarrow>
        p \<in> closed_set s \<and> cless (g_cost (nodes (graph s) p)) (g_cost (nodes (graph s) c)))"

definition search_inv :: "Graph \<Rightarrow> cell \<Rightarrow> cell \<Rightarrow> search_state \<Rightarrow> bool" where
  "search_inv G0 start end_node s \<longleftrightarrow>
     frame_ok G0 start (graph s) \<and> cells_ok G0 start end_node s \<and> parents_ok G0 s"

lemma tt_cost_positive: "tt_cost (get_terrain t) = Fin x \<Longrightarrow> 0 < x"
  by (auto simp: get_terrain_def terrain_types_def NORMAL_def GRASS_def SAND_def WATER_def
        MOUNTAIN_def ROAD_def split: option.splits if_splits)

lemma get_terrain_cost_positive: "get_terrain_cost G a b = Fin x \<Longrightarrow> 0 < x"
  by (cases "tt_cost (get_terrain (terrain_type (nodes G b)))")
     (auto simp: get_terrain_cost_def Terrain_get_terrain_cost_def Let_def
        dest: tt_cost_positive split: if_splits)

lemma tentative_greater:
  assumes "cless (cadd g (get_terrain_cost G a b)) g'"
  shows "cless g (cadd g (get_terrain_cost G a b))"
proof (cases g)
  case (Fin x)
  show ?thesis
  proof (cases "get_terrain_cost G a b")
    case (Fin y)
    with get_terrain_cost_positive [OF Fin] \<open>g = Fin x\<close> show ?thesis by simp
  next
    case PInf
    with assms \<open>g = Fin x\<close> show ?thesis by simp
  qed
next
  case PInf
  with assms show ?thesis by simp
qed


lemma frame_in_bounds: "frame_ok G0 start G \<Longrightarrow> in_bounds G c = in_bounds G0 c"
  by (simp add: frame_ok_def in_bounds_def)

lemma frame_walkable: "frame_ok G0 start G \<Longrightarrow> walkable (nodes G c) = walkable (nodes G0 c)"
  unfolding frame_ok_def by blast

lemma parents_okD:
  "parents_ok G0 s \<Longrightarrow> in_bounds G0 c \<Longrightarrow> parent (nodes (graph s) c) = Some p
   \<Longrightarrow> p \<in> closed_set s \<and> cless (g_cost (nodes (graph s) p)) (g_cost (nodes (graph s) c))"
  unfolding parents_ok_def by blast

lemma improve_frame:
  assumes "frame_ok G0 start G" and "in_bounds G0 n"
  shows "frame_ok G0 start (improve A e cur n t G)"
  using assms by (cases A) (auto simp: frame_ok_def improve_def)

lemma relax_frame:
  assumes "frame_ok G0 start (graph s)" and "in_bounds G0 n"
  shows "frame_ok G0 start (graph (relax A ident e cur n s))"
  using assms by (simp add: relax_def Let_def improve_frame)

lemma relax_cells_ok:
  assumes "cells_ok G0 start e s" and "in_bounds G0 n" and "walkable (nodes G0 n)"
  shows "cells_ok G0 start e (relax A ident e' cur n s)"
  using assms relax_cells [of A ident e' cur n s]
  by (auto simp: cells_ok_def)

lemma improve_nodes_other: "c \<noteq> n \<Longrightarrow> nodes (improve A e cur n t G) c = nodes G c"
  by (simp add: improve_def)

lemma improve_parent: "parent (nodes (improve A e cur n t G) n) = Some cur"
  by (cases A) (simp_all add: improve_def)

lemma improve_g_cost: "g_cost (nodes (improve A e cur n t G) n) = t"
  by (cases A) (simp_all add: improve_def)

lemma relax_parents:
  assumes po: "parents_ok G0 s" and cur: "cur \<in> closed_set s"
  shows "parents_ok G0 (relax A ident e cur n s)"
proof (cases "n \<notin> closed_set s \<and>
    cless (cadd (g_cost (nodes (graph s) cur)) (get_terrain_cost (graph s) cur n))
          (g_cost (nodes (graph s) n))")
  case False
  then have "relax A ident e cur n s = s"
    by (auto simp: relax_def Let_def)
  with po show ?thesis by simp
next
  case True
  define t where "t = cadd (g_cost (nodes (graph s) cur)) (get_terrain_cost (graph s) cur n)"
  define G' where "G' = improve A e cur n t (graph s)"
  from True have nc: "n \<notin> closed_set s" and less: "cless t (g_cost (nodes (graph s) n))"
    by (simp_all add: t_def)
  have gr: "graph (relax A ident e cur n s) = G'"
    using True by (simp add: relax_def Let_def t_def G'_def)
  have ncur: "n \<noteq> cur" using nc cur by auto
  have up: "cless (g_cost (nodes (graph s) cur)) t"
    using less unfolding t_def by (rule tentative_greater)
  show ?thesis
    unfolding parents_ok_def
  proof (intro allI impI)
    fix c p
    assume ib: "in_bounds G0 c"
      and par: "parent (nodes (graph (relax A ident e cur n s)) c) = Some p"
    show "p \<in> closed_set (relax A ident e cur n s)
        \<and> cless (g_cost (nodes (graph (relax A ident e cur n s)) p))
                 (g_cost (nodes (graph (relax A ident e cur n s)) c))"
    proof (cases "c = n")
      case True
      with par have "p = cur"
        by (simp add: gr G'_def improve_parent)
      with True cur up ncur show ?thesis
        by (simp add: gr G'_def improve_g_cost improve_nodes_other)
    next
      case False
      with par have par0: "parent (nodes (graph s) c) = Some p"
        by (simp add: gr G'_def improve_nodes_other)
      from parents_okD [OF po ib par0] have pc: "p \<in> closed_set s"
        and pl: "cless (g_cost (nodes (graph s) p)) (g_cost (nodes (graph s) c))"
        by simp_all
      from pc nc have "p \<noteq> n" by auto
      with False pc pl show ?thesis
        by (simp add: gr G'_def improve_nodes_other)
    qed
  qed
qed

lemma relax_inv:
  assumes "search_inv G0 start e s" and "cur \<in> closed_set s"
    and "in_bounds G0 n" and "walkable (nodes G0 n)"
  shows "search_inv G0 start e (relax A ident e' cur n s)"
  using assms by (simp add: search_inv_def relax_frame relax_cells_ok relax_parents)

lemma fold_relax_inv:
  assumes "search_inv G0 start e s" and "cur \<in> closed_set s"
    and "\<forall>n \<in> set ns. in_bounds G0 n \<and> walkable (nodes G0 n)"
  shows "search_inv G0 start e (fold (relax A ident e' cur) ns s)"
  using assms
proof (induction ns arbitrary: s)
  case Nil
  then show ?case by simp
next
  case (Cons n ns)
  have "search_inv G0 start e (relax A ident e' cur n s)"
    using Cons.prems by (simp add: relax_inv)
  moreover have "cur \<in> closed_set (relax A ident e' cur n s)"
    using Cons.prems by simp
  ultimately show ?case
    using Cons.IH Cons.prems by simp
qed

lemma expand_inv:
  assumes inv: "search_inv G0 start e s" and cur: "cur \<in> closed_set s"
  shows "search_inv G0 start e (expand A ident e' av cur s)"
proof -
  from inv have fr: "frame_ok G0 start (graph s)"
    by (simp add: search_inv_def)
  have "\<forall>n \<in> set (get_neighbors (graph s) cur av). in_bounds G0 n \<and> walkable (nodes G0 n)"
  proof
    fix n assume "n \<in> set (get_neighbors (graph s) cur av)"
    then have "in_bounds (graph s) n \<and> walkable (nodes (graph s) n)"
      by (rule get_neighbors_sound)
    with fr show "in_bounds G0 n \<and> walkable (nodes G0 n)"
      by (simp add: frame_in_bounds frame_walkable)
  qed
  with inv cur show ?thesis
    unfolding expand_def by (rule fold_relax_inv)
qed

lemma pop_inv:
  assumes "search_inv G0 start e s"
  shows "search_inv G0 start e (s\<lparr>open_set := snd (heappop (open_set s))\<rparr>)"
  using assms heappop_cells [of "open_set s"]
  by (auto simp: search_inv_def cells_ok_def parents_ok_def)

lemma close_inv:
  assumes inv: "search_inv G0 start e s" and c: "c \<noteq> e"
    and ok: "c = start \<or> (in_bounds G0 c \<and> walkable (nodes G0 c))"
  shows "search_inv G0 start e (s\<lparr>closed_set := insert c (closed_set s)\<rparr>)"
  using assms by (auto simp: search_inv_def cells_ok_def parents_ok_def)

lemma iteration_inv:
  assumes inv: "search_inv G0 start e s" and ne: "open_set s \<noteq> []"
  shows "iteration A ident e av s = Continue s' \<Longrightarrow> search_inv G0 start e s'"
    and "iteration A ident e av s = Found c s' \<Longrightarrow> search_inv G0 start e s' \<and> c = e"
proof -
  define cur where "cur = snd (snd (fst (heappop (open_set s))))"
  define s1 where "s1 = s\<lparr>open_set := snd (heappop (open_set s))\<rparr>"
  have inv1: "search_inv G0 start e s1"
    unfolding s1_def using inv by (rule pop_inv)
  have "cur \<in> entry_cells (open_set s)"
    using heappop_fst_mem [OF ne] by (auto simp: cur_def entry_cells_def)
  with inv have ok: "cur = start \<or> (in_bounds G0 cur \<and> walkable (nodes G0 cur))"
    by (auto simp: search_inv_def cells_ok_def)
  {
    assume it: "iteration A ident e av s = Continue s'"
    show "search_inv G0 start e s'"
    proof (cases "cur \<in> closed_set s1")
      case True
      with it have "s' = s1"
        by (auto simp: iteration_def Let_def cur_def s1_def split: if_splits)
      with inv1 show ?thesis by simp
    next
      case False
      with it have ce: "cur \<noteq> e"
        and s': "s' = expand A ident e av cur (s1\<lparr>closed_set := insert cur (closed_set s1)\<rparr>)"
        by (auto simp: iteration_def Let_def cur_def s1_def split: if_splits)
      have "search_inv G0 start e (s1\<lparr>closed_set := insert cur (closed_set s1)\<rparr>)"
        using inv1 ce ok by (rule close_inv)
      then show ?thesis
        unfolding s' by (rule expand_inv) simp
    qed
  }
  {
    assume it: "iteration A ident e av s = Found c s'"
    then have "s' = s1 \<and> c = e"
      by (auto simp: iteration_def Let_def cur_def s1_def split: if_splits)
    with inv1 show "search_inv G0 start e s' \<and> c = e" by simp
  }
qed

lemma iterate_loop_inv:
  "search_inv G0 start e s \<Longrightarrow> search_inv G0 start e (iterate_loop k A ident e av s)"
proof (induction k arbitrary: s)
  case 0
  then show ?case by simp
next
  case (Suc k)
  show ?case
  proof (cases "open_set s = []")
    case True
    with Suc.prems show ?thesis by simp
  next
    case False
    show ?thesis
    proof (cases "iteration A ident e av s")
      case (Found c s')
      with iteration_inv(2) [OF Suc.prems False Found] False show ?thesis by simp
    next
      case (Continue s')
      from iteration_inv(1) [OF Suc.prems False Continue] have "search_inv G0 start e s'" .
      from Suc.IH [OF this] Continue False show ?thesis by simp
    qed
  qed
qed

lemma search_loop_iterate:
  "\<exists>k. snd (search_loop A ident e av s) = iterate_loop k A ident e av s"
proof (induction A ident e av s rule: search_loop.induct)
  case (1 A ident e av s)
  show ?case
  proof (cases "open_set s = []")
    case True
    then have "snd (search_loop A ident e av s) = iterate_loop 0 A ident e av s"
      by (simp add: search_loop.simps)
    then show ?thesis by blast
  next
    case False
    show ?thesis
    proof (cases "iteration A ident e av s")
      case (Found c s')
      with False have "snd (search_loop A ident e av s) = iterate_loop (Suc 0) A ident e av s"
        by (simp add: search_loop.simps)
      then show ?thesis by blast
    next
      case (Continue s')
      from "1.IH" [OF False Continue] obtain k
        where "snd (search_loop A ident e av s') = iterate_loop k A ident e av s'" by blast
      with False Continue
      have "snd (search_loop A ident e av s) = iterate_loop (Suc k) A ident e av s"
        by (simp add: search_loop.simps)
      then show ?thesis by blast
    qed
  qed
qed

lemma search_loop_found:
  "fst (search_loop A ident e av s) = Some c \<Longrightarrow> c = e"
proof (induction A ident e av s rule: search_loop.induct)
  case (1 A ident e av s)
  show ?case
  proof (cases "open_set s = []")
    case True
    with "1.prems" show ?thesis by (simp add: search_loop.simps)
  next
    case False
    show ?thesis
    proof (cases "iteration A ident e av s")
      case (Found c' s')
      with False "1.prems" have "c' = c" by (simp add: search_loop.simps)
      moreover from Found have "c' = e"
        by (auto simp: iteration_def Let_def split: if_splits)
      ultimately show ?thesis by simp
    next
      case (Continue s')
      with False "1.prems" have "fst (search_loop A ident e av s') = Some c"
        by (simp add: search_loop.simps)
      from "1.IH" [OF False Continue this] show ?thesis .
    qed
  qed
qed


lemma init_state_inv: "search_inv G start e (init_state A ident G start e)"
proof -
  have "frame_ok G start (graph (init_state A ident G start e))"
    by (cases A) (auto simp: frame_ok_def init_state_def reset_nodes_def Let_def)
  moreover have "cells_ok G start e (init_state A ident G start e)"
    by (simp add: cells_ok_def init_state_def Let_def entry_cells_def)
  moreover have "parents_ok G (init_state A ident G start e)"
    by (cases A) (auto simp: parents_ok_def init_state_def reset_nodes_def Let_def)
  ultimately show ?thesis by (simp add: search_inv_def)
qed

lemma search_loop_inv:
  "search_inv G start e (snd (search_loop A ident e av (init_state A ident G start e)))"
proof -
  obtain k where "snd (search_loop A ident e av (init_state A ident G start e))
      = iterate_loop k A ident e av (init_state A ident G start e)"
    using search_loop_iterate by blast
  then show ?thesis
    by (simp add: iterate_loop_inv init_state_inv)
qed

lemma cless_trans: "cless a b \<Longrightarrow> cless b c \<Longrightarrow> cless a c"
  by (cases a; cases b; cases c) simp_all

lemma cless_irrefl: "\<not> cless a a"
  by (cases a) simp_all

definition below :: "Graph \<Rightarrow> Graph \<Rightarrow> cell \<Rightarrow> cell set" where
  "below G0 G c = {d. in_bounds G0 d \<and> cless (g_cost (nodes G d)) (g_cost (nodes G c))}"

lemma finite_below: "finite (below G0 G c)"
  by (rule finite_subset [OF _ finite_grid_cells [of G0]]) (auto simp: below_def grid_cells_def)

lemma reconstruct_loop_result:
  assumes par: "\<And>c p. in_bounds G0 c \<Longrightarrow> parent (nodes G c) = Some p \<Longrightarrow>
              in_bounds G0 p \<and> cless (g_cost (nodes G p)) (g_cost (nodes G c))"
  shows "in_bounds G0 c \<Longrightarrow>
    \<exists>path. reconstruct_loop G (Some c) acc = Some path \<and> path \<noteq> [] \<and> last path = hd (acc @ [c])"
proof (induction "card (below G0 G c)" arbitrary: c acc rule: less_induct)
  case less
  show ?case
  proof (cases "parent (nodes G c)")
    case None
    then have "reconstruct_loop G (Some c) acc = Some (rev (acc @ [c]))"
      by (simp add: reconstruct_loop.simps)
    moreover have "last (rev (acc @ [c])) = hd (acc @ [c])"
      by (simp add: last_rev)
    ultimately show ?thesis by simp
  next
    case (Some p)
    from par [OF less.prems Some] have ib: "in_bounds G0 p"
      and lt: "cless (g_cost (nodes G p)) (g_cost (nodes G c))" by simp_all
    have "below G0 G p \<subset> below G0 G c"
    proof
      show "below G0 G p \<subseteq> below G0 G c"
        using lt by (auto simp: below_def intro: cless_trans)
      have "p \<in> below G0 G c" using ib lt by (simp add: below_def)
      moreover have "p \<notin> below G0 G p" by (simp add: below_def cless_irrefl)
      ultimately show "below G0 G p \<noteq> below G0 G c" by blast
    qed
    then have "card (below G0 G p) < card (below G0 G c)"
      by (rule psubset_card_mono [OF finite_below])
    from less.hyps [OF this ib, of "acc @ [c]"] obtain path
      where p: "reconstruct_loop G (Some p) (acc @ [c]) = Some path"
        and ne: "path \<noteq> []" and la: "last path = hd ((acc @ [c]) @ [p])" by blast
    from Some p have "reconstruct_loop G (Some c) acc = Some path"
      by (subst reconstruct_loop.simps) simp
    moreover have "hd ((acc @ [c]) @ [p]) = hd (acc @ [c])"
      by (cases acc) simp_all
    ultimately show ?thesis using ne la by simp
  qed
qed

lemma inv_parent_step:
  assumes inv: "search_inv G0 start e s" and st: "in_bounds G0 start"
    and ib: "in_bounds G0 c" and par: "parent (nodes (graph s) c) = Some p"
  shows "in_bounds G0 p \<and> cless (g_cost (nodes (graph s) p)) (g_cost (nodes (graph s) c))"
proof -
  from inv have po: "parents_ok G0 s" and co: "cells_ok G0 start e s"
    by (simp_all add: search_inv_def)
  from parents_okD [OF po ib par] have pc: "p \<in> closed_set s"
    and lt: "cless (g_cost (nodes (graph s) p)) (g_cost (nodes (graph s) c))" by simp_all
  from co pc have "p = start \<or> in_bounds G0 p"
    unfolding cells_ok_def by blast
  with st lt show ?thesis by blast
qed

lemma inv_reconstruct_result:
  assumes "search_inv G0 start e s" and "in_bounds G0 start" and "in_bounds G0 c"
  shows "\<exists>path. reconstruct_path (graph s) c = Some path \<and> path \<noteq> [] \<and> last path = c"
proof -
  have "\<exists>path. reconstruct_loop (graph s) (Some c) [] = Some path \<and> path \<noteq> []
          \<and> last path = hd ([] @ [c])"
    by (rule reconstruct_loop_result [where ?G0.0 = G0])
       (use assms inv_parent_step in blast)+
  then show ?thesis by (simp add: reconstruct_path_def)
qed

lemma inv_reconstruct_returns:
  assumes "search_inv G0 start e s" and "in_bounds G0 start" and "in_bounds G0 c"
  shows "\<exists>path. reconstruct_path (graph s) c = Some path"
  using inv_reconstruct_result [OF assms] by blast

lemma inv_reset_nodes:
  assumes inv: "search_inv G start e s" and st: "in_bounds G start"
  shows "reset_nodes (graph s) = reset_nodes G"
proof -
  from inv have fr: "frame_ok G start (graph s)" by (simp add: search_inv_def)
  have ib: "in_bounds (graph s) = in_bounds G"
    using frame_in_bounds [OF fr] by (simp add: fun_eq_iff)
  have tt: "terrain_type (nodes (graph s) c) = terrain_type (nodes G c)" for c
    using fr unfolding frame_ok_def by blast
  have wk: "walkable (nodes (graph s) c) = walkable (nodes G c)" for c
    using fr by (rule frame_walkable)
  have out: "\<not> in_bounds G c \<Longrightarrow> nodes (graph s) c = nodes G c" for c
    using fr st unfolding frame_ok_def by blast
  have nd: "(if in_bounds G c
             then (nodes (graph s) c)\<lparr>g_cost := PInf, h_cost := 0, parent := None\<rparr>
             else nodes (graph s) c)
          = (if in_bounds G c
             then (nodes G c)\<lparr>g_cost := PInf, h_cost := 0, parent := None\<rparr>
             else nodes G c)" for c
    using tt [of c] wk [of c] out [of c] by (auto intro: Node.equality)
  have "width (graph s) = width G" "height (graph s) = height G" "terrain (graph s) = terrain G"
    using fr by (simp_all add: frame_ok_def)
  then show ?thesis
    by (intro Graph.equality) (simp_all add: reset_nodes_def ib nd)
qed

section \<open>The result of a search\<close>

lemma search_loop_found_cell:
  "search_inv G0 start e s \<Longrightarrow> fst (search_loop A ident e av s) = Some c
   \<Longrightarrow> c = start \<or> (in_bounds G0 c \<and> walkable (nodes G0 c))"
proof (induction A ident e av s rule: search_loop.induct)
  case (1 A ident e av s)
  show ?case
  proof (cases "open_set s = []")
    case True
    with "1.prems" show ?thesis by (simp add: search_loop.simps)
  next
    case False
    show ?thesis
    proof (cases "iteration A ident e av s")
      case (Found c' s')
      with False "1.prems" have cc: "c' = c" by (simp add: search_loop.simps)
      from Found have "c' = snd (snd (fst (heappop (open_set s))))"
        by (auto simp: iteration_def Let_def split: if_splits)
      with heappop_fst_mem [OF False] cc have "c \<in> entry_cells (open_set s)"
        by (auto simp: entry_cells_def)
      with "1.prems"(1) show ?thesis
        unfolding search_inv_def cells_ok_def by blast
    next
      case (Continue s')
      with False "1.prems" have "fst (search_loop A ident e av s') = Some c"
        by (simp add: search_loop.simps)
      moreover from iteration_inv(1) [OF "1.prems"(1) False Continue]
      have "search_inv G0 start e s'" .
      ultimately show ?thesis
        using "1.IH" [OF False Continue] by blast
    qed
  qed
qed

lemma iteration_closed_mono:
  "iteration A ident e av s = Continue s' \<Longrightarrow> closed_set s \<subseteq> closed_set s'"
  "iteration A ident e av s = Found c s' \<Longrightarrow> closed_set s' = closed_set s"
  by (auto simp: iteration_def Let_def split: if_splits)

lemma search_loop_closed_mono:
  "closed_set s \<subseteq> closed_set (snd (search_loop A ident e av s))"
proof (induction A ident e av s rule: search_loop.induct)
  case (1 A ident e av s)
  show ?case
  proof (cases "open_set s = []")
    case True
    then show ?thesis by (simp add: search_loop.simps)
  next
    case False
    show ?thesis
    proof (cases "iteration A ident e av s")
      case (Found c s')
      with False iteration_closed_mono(2) [OF Found] show ?thesis
        by (simp add: search_loop.simps)
    next
      case (Continue s')
      from "1.IH" [OF False Continue] iteration_closed_mono(1) [OF Continue] False Continue
      show ?thesis by (auto simp: search_loop.simps)
    qed
  qed
qed

lemma start_is_closed:
  assumes "start \<noteq> e"
  shows "start \<in> closed_set (snd (search_loop A ident e av (init_state A ident G start e)))"
proof -
  define s0 where "s0 = init_state A ident G start e"
  have os: "open_set s0 = [(key_of A (nodes (graph s0) start), ident start, start)]"
    and cl: "closed_set s0 = {}"
    by (simp_all add: s0_def init_state_def Let_def)
  define s1 where "s1 = expand A ident e av start (s0\<lparr>open_set := [], closed_set := {start}\<rparr>)"
  have it: "iteration A ident e av s0 = Continue s1"
    using assms by (simp add: iteration_def os cl heappop_def Let_def s1_def)
  have "search_loop A ident e av s0 = search_loop A ident e av s1"
    by (subst search_loop.simps) (simp add: os it)
  moreover have "start \<in> closed_set s1" by (simp add: s1_def)
  ultimately show ?thesis
    using search_loop_closed_mono [of s1 A ident e av] by (auto simp: s0_def)
qed

lemma search_result_path:
  assumes st: "in_bounds G start"
  shows "\<exists>path. search A G ident start e av
           = Some (path, closed_set (snd (search_loop A ident e av (init_state A ident G start e))),
                   graph (snd (search_loop A ident e av (init_state A ident G start e))))
         \<and> (path \<noteq> [] \<longrightarrow> last path = e)"
proof -
  obtain found s where r: "search_loop A ident e av (init_state A ident G start e) = (found, s)"
    by (cases "search_loop A ident e av (init_state A ident G start e)") auto
  have inv: "search_inv G start e s"
    using search_loop_inv [of G start e A ident av] by (simp add: r)
  show ?thesis
  proof (cases found)
    case None
    with r show ?thesis by (simp add: search_def)
  next
    case (Some c)
    have ce: "c = e"
      by (rule search_loop_found [of A ident e av "init_state A ident G start e"]) (simp add: r Some)
    have "c = start \<or> (in_bounds G c \<and> walkable (nodes G c))"
      by (rule search_loop_found_cell [OF init_state_inv [of G start e A ident], of A ident av])
         (simp add: r Some)
    with st have "in_bounds G c" by auto
    from inv_reconstruct_result [OF inv st this] obtain path
      where "reconstruct_path (graph s) c = Some path" "path \<noteq> []" "last path = c" by blast
    with Some r ce show ?thesis by (simp add: search_def)
  qed
qed

lemma search_result:
  assumes "in_bounds G start"
  shows "\<exists>path. search A G ident start e av
           = Some (path, closed_set (snd (search_loop A ident e av (init_state A ident G start e))),
                   graph (snd (search_loop A ident e av (init_state A ident G start e))))"
  using search_result_path [OF assms, of A ident e av] by blast

lemma search_reset_cong:
  "reset_nodes G' = reset_nodes G \<Longrightarrow> search A G' ident start e av = search A G ident start e av"
  by (simp add: search_def init_state_def)

section \<open>Grids and identities for the examples\<close>

text \<open>
  Two assignments of identities to the nodes, both injective: they stand for two runs of
  the interpreter that place the nodes at different addresses.
\<close>

definition address_xy :: "cell \<Rightarrow> nat" where
  "address_xy c = prod_encode (int_encode (fst c), int_encode (snd c))"

definition address_yx :: "cell \<Rightarrow> nat" where
  "address_yx c = prod_encode (int_encode (snd c), int_encode (fst c))"

lemma inj_address_xy: "inj address_xy"
  by (auto simp: inj_def address_xy_def int_encode_eq prod_eq_iff)

lemma inj_address_yx: "inj address_yx"
  by (auto simp: inj_def address_yx_def int_encode_eq prod_eq_iff)

text \<open>
  The query \<open>get_neighbors\<close> with the test of the flag after the test for an empty list
  of water neighbours, for the evaluation of a search whose flag is not fixed.
\<close>

lemma get_neighbors_eval:
  "get_neighbors G c avoid_water =
     (case scan_directions G c directions ([], []) of
        (neighbors, water_neighbors) \<Rightarrow>
          if water_neighbors = [] then neighbors
          else if avoid_water \<and> neighbors \<noteq> [] then neighbors
          else neighbors @ water_neighbors)"
  by (simp add: get_neighbors_def split: prod.splits)

lemmas eval_defs =
  search_def dijkstra_def a_star_def init_state_def reset_nodes_def path_and_closed_def
  iteration_def heappop_def heappush_def entry_less_def expand_def relax_def improve_def
  key_of_def f_cost_def get_neighbors_def directions_def in_bounds_def get_terrain_cost_def
  Terrain_get_terrain_cost_def get_terrain_def lower_def lower_char_def terrain_types_def
  NORMAL_def GRASS_def SAND_def WATER_def MOUNTAIN_def ROAD_def is_walkable_def
  set_terrain_def Graph_init_def Node_init_def reconstruct_path_def heuristic_def Let_def
  address_xy_def address_yx_def prod_encode_def triangle_def int_encode_def sum_encode_def

lemmas eval_defs' =
  search_def dijkstra_def a_star_def init_state_def reset_nodes_def path_and_closed_def
  iteration_def heappop_def heappush_def entry_less_def expand_def relax_def improve_def
  key_of_def f_cost_def get_neighbors_eval directions_def in_bounds_def get_terrain_cost_def
  Terrain_get_terrain_cost_def get_terrain_def lower_def lower_char_def terrain_types_def
  NORMAL_def GRASS_def SAND_def WATER_def MOUNTAIN_def ROAD_def is_walkable_def
  set_terrain_def Graph_init_def Node_init_def reconstruct_path_def heuristic_def Let_def

lemma sqrt2_lower: "141 / 100 < sqrt 2"
  by (rule real_less_rsqrt) (simp add: power2_eq_square)

lemma sqrt2_upper: "sqrt 2 < 142 / 100"
  by (rule real_less_lsqrt) (simp_all add: power2_eq_square)

text \<open>
  A grid of two by two whose far corner is a mountain; a row of two cells whose first
  cell is water; and a grid of four by two, written column by column
  \<open>normal water / normal road / mountain mountain / road water\<close>.
\<close>

definition tie_grid :: Graph where
  "tie_grid = set_terrain (Graph_init 2 2) 1 1 ''mountain''"

definition wet_start :: Graph where
  "wet_start = set_terrain (Graph_init 2 1) 0 0 ''water''"

definition bug_grid :: Graph where
  "bug_grid =
     set_terrain (set_terrain (set_terrain (set_terrain (set_terrain (set_terrain
       (Graph_init 4 2) 0 1 ''water'') 1 1 ''road'') 2 0 ''mountain'') 2 1 ''mountain'')
       3 0 ''road'') 3 1 ''water''"

text \<open>
  The state of \<open>dijkstra\<close> from \<open>(0, 0)\<close> to \<open>(3, 0)\<close> on the last grid after a number of
  passes through the loop.
\<close>

definition bug_state :: "nat \<Rightarrow> (cell \<Rightarrow> nat) \<Rightarrow> bool \<Rightarrow> search_state" where
  "bug_state k ident avoid_water =
     iterate_loop k Dijkstra ident (3, 0) avoid_water (init_state Dijkstra ident bug_grid (0, 0) (3, 0))"

text \<open>
  The cost of a path is the sum of the edge costs of its consecutive pairs; a path of
  the grid goes from each cell to one of its neighbours.
\<close>

fun path_cost :: "Graph \<Rightarrow> cell list \<Rightarrow> cost" where
  "path_cost G (a # b # rest) = cadd (get_terrain_cost G a b) (path_cost G (b # rest))"
| "path_cost G _ = Fin 0"

fun is_path :: "Graph \<Rightarrow> bool \<Rightarrow> cell list \<Rightarrow> bool" where
  "is_path G avoid_water (a # b # rest) =
     (b \<in> set (get_neighbors G a avoid_water) \<and> is_path G avoid_water (b # rest))"
| "is_path G avoid_water _ = True"

lemma bug_run:
  assumes "inj ident"
  shows "case search_loop Dijkstra ident (3, 0) av (init_state Dijkstra ident bug_grid (0, 0) (3, 0)) of
           (found, s) \<Rightarrow>
              found = Some (3, 0)
            \<and> open_set s = [(Fin (16 / 5 * sqrt 2), ident (2, 0), (2, 0))]
            \<and> closed_set s = {(2, 1), (1, 0), (1, 1), (0, 0)}
            \<and> g_cost (nodes (graph s) (2, 0)) = Fin (7 / 2)
            \<and> g_cost (nodes (graph s) (3, 0)) = Fin (5 / 2 + 7 / 5 * sqrt 2)
            \<and> reconstruct_path (graph s) (3, 0) = Some [(0, 0), (1, 1), (2, 1), (3, 0)]"
  using sqrt2_lower sqrt2_upper assms
  by (simp add: bug_grid_def eval_defs' search_loop.simps reconstruct_loop.simps inj_eq)

lemma bug_states:
  assumes "inj ident"
  shows "g_cost (nodes (graph (bug_state (Suc (Suc 0)) ident av)) (2, 0)) = Fin (16 / 5 * sqrt 2)
       \<and> (2, 0) \<notin> closed_set (bug_state (Suc (Suc (Suc 0))) ident av)
       \<and> g_cost (nodes (graph (bug_state (Suc (Suc (Suc 0))) ident av)) (2, 0)) = Fin (7 / 2)
       \<and> filter (\<lambda>entry. snd (snd entry) = (2, 0)) (open_set (bug_state (Suc (Suc (Suc 0))) ident av))
           = [(Fin (16 / 5 * sqrt 2), ident (2, 0), (2, 0))]"
  using sqrt2_lower sqrt2_upper assms
  by (simp add: bug_state_def bug_grid_def eval_defs' inj_eq)

lemma bug_paths:
  "path_cost bug_grid [(0, 0), (1, 1), (2, 1), (3, 0)] = Fin (5 / 2 + 7 / 5 * sqrt 2)
   \<and> is_path bug_grid avoid_water [(0, 0), (1, 0), (2, 0), (3, 0)]
   \<and> path_cost bug_grid [(0, 0), (1, 0), (2, 0), (3, 0)] = Fin (21 / 5)
   \<and> cless (Fin (21 / 5)) (Fin (5 / 2 + 7 / 5 * sqrt 2))"
  using sqrt2_lower sqrt2_upper
  by (simp add: bug_grid_def eval_defs')

section \<open>Optimality of dijkstra\<close>

text \<open>
  C1. The claim asks for a path of least cost. On the grid \<open>bug_grid\<close>, from \<open>(0, 0)\<close> to
  \<open>(3, 0)\<close>, both walkable, and for every injective assignment of identities and every
  value of the flag, \<open>dijkstra\<close> returns the path over \<open>(1, 1)\<close> and \<open>(2, 1)\<close>. Its cost
  is the \<open>g_cost\<close> recorded for the end cell, \<open>5/2 + 7/5 * sqrt 2\<close>, about 4.48. The path
  over \<open>(1, 0)\<close> and \<open>(2, 0)\<close> is a path of the same grid and costs \<open>21/5\<close>, which is
  less: the path returned is not a cheapest one.
\<close>

theorem dijkstra_returns_costlier_path:
  assumes "inj ident"
  shows "(\<exists>closed G'.
            dijkstra bug_grid ident (0, 0) (3, 0) avoid_water
              = Some ([(0, 0), (1, 1), (2, 1), (3, 0)], closed, G')
          \<and> g_cost (nodes G' (3, 0)) = Fin (5 / 2 + 7 / 5 * sqrt 2))
       \<and> path_cost bug_grid [(0, 0), (1, 1), (2, 1), (3, 0)] = Fin (5 / 2 + 7 / 5 * sqrt 2)
       \<and> is_path bug_grid avoid_water [(0, 0), (1, 0), (2, 0), (3, 0)]
       \<and> path_cost bug_grid [(0, 0), (1, 0), (2, 0), (3, 0)] = Fin (21 / 5)
       \<and> cless (Fin (21 / 5)) (Fin (5 / 2 + 7 / 5 * sqrt 2))"
proof -
  obtain found s
    where r: "search_loop Dijkstra ident (3, 0) avoid_water
                (init_state Dijkstra ident bug_grid (0, 0) (3, 0)) = (found, s)"
    by (cases "search_loop Dijkstra ident (3, 0) avoid_water
                (init_state Dijkstra ident bug_grid (0, 0) (3, 0))") auto
  from bug_run [OF assms, of avoid_water]
  have f: "found = Some (3, 0)"
    and g: "g_cost (nodes (graph s) (3, 0)) = Fin (5 / 2 + 7 / 5 * sqrt 2)"
    and p: "reconstruct_path (graph s) (3, 0) = Some [(0, 0), (1, 1), (2, 1), (3, 0)]"
    by (simp_all add: r)
  have "dijkstra bug_grid ident (0, 0) (3, 0) avoid_water
          = Some ([(0, 0), (1, 1), (2, 1), (3, 0)], closed_set s, graph s)"
    by (simp add: dijkstra_def search_def r f p)
  with g bug_paths [of avoid_water] show ?thesis by blast
qed

text \<open>
  With the identities \<open>address_xy\<close>.
\<close>

theorem dijkstra_returns_costlier_path_witness:
  "inj address_xy
   \<and> (\<exists>closed G'.
          dijkstra bug_grid address_xy (0, 0) (3, 0) True
            = Some ([(0, 0), (1, 1), (2, 1), (3, 0)], closed, G'))
   \<and> is_path bug_grid True [(0, 0), (1, 0), (2, 0), (3, 0)]
   \<and> path_cost bug_grid [(0, 0), (1, 0), (2, 0), (3, 0)] = Fin (21 / 5)
   \<and> path_cost bug_grid [(0, 0), (1, 1), (2, 1), (3, 0)] = Fin (5 / 2 + 7 / 5 * sqrt 2)
   \<and> cless (Fin (21 / 5)) (Fin (5 / 2 + 7 / 5 * sqrt 2))"
  using dijkstra_returns_costlier_path [OF inj_address_xy, of True] inj_address_xy
  by blast

section \<open>The closed set\<close>

text \<open>
  C2, as stated, fails. In a row of two normal cells the search from the first to the
  second finds a path, and the closed set it returns holds the first cell only: the
  end cell is not in it. When the start cell is water, which is not walkable, the
  closed set returned holds that cell.
\<close>

theorem end_in_closed_set_counterexample:
  "path_and_closed (dijkstra (Graph_init 2 1) address_xy (0, 0) (1, 0) True)
     = Some ([(0, 0), (1, 0)], {(0, 0)})
   \<and> path_and_closed (a_star (Graph_init 2 1) address_xy (0, 0) (1, 0) True)
     = Some ([(0, 0), (1, 0)], {(0, 0)})
   \<and> \<not> ((1, 0) \<in> {(0 :: int, 0 :: int)} \<longleftrightarrow> [(0 :: int, 0 :: int), (1, 0)] \<noteq> [])
   \<and> path_and_closed (dijkstra wet_start address_xy (0, 0) (1, 0) True)
     = Some ([(0, 0), (1, 0)], {(0, 0)})
   \<and> \<not> walkable (nodes wet_start (0, 0))"
proof -
  have d: "path_and_closed (dijkstra (Graph_init 2 1) address_xy (0, 0) (1, 0) True)
     = Some ([(0, 0), (1, 0)], {(0, 0)})"
    by (simp add: eval_defs search_loop.simps reconstruct_loop.simps)
  have a: "path_and_closed (a_star (Graph_init 2 1) address_xy (0, 0) (1, 0) True)
     = Some ([(0, 0), (1, 0)], {(0, 0)})"
    by (simp add: eval_defs search_loop.simps reconstruct_loop.simps)
  have w: "path_and_closed (dijkstra wet_start address_xy (0, 0) (1, 0) True)
     = Some ([(0, 0), (1, 0)], {(0, 0)})"
    by (simp add: wet_start_def eval_defs search_loop.simps reconstruct_loop.simps)
  have n: "\<not> walkable (nodes wet_start (0, 0))"
    by (simp add: wet_start_def eval_defs)
  show ?thesis
    unfolding d a w using n by simp
qed

text \<open>
  C2, amended. For a start cell of the grid, \<open>dijkstra\<close> and \<open>a_star\<close> return, and the
  closed set they return never holds the end cell, whether or not a path was found;
  every cell in it is the start cell or a walkable cell of the grid; it holds the start
  cell when start and end differ; and a path that is not empty ends at the end cell.
\<close>

theorem closed_set_contents:
  assumes "in_bounds G start"
  shows "(\<exists>path closed G'.
            dijkstra G ident start end_node avoid_water = Some (path, closed, G')
          \<and> end_node \<notin> closed
          \<and> (\<forall>c \<in> closed. c = start \<or> (in_bounds G c \<and> walkable (nodes G c)))
          \<and> (start \<noteq> end_node \<longrightarrow> start \<in> closed)
          \<and> (path \<noteq> [] \<longrightarrow> last path = end_node))
       \<and> (\<exists>path closed G'.
            a_star G ident start end_node avoid_water = Some (path, closed, G')
          \<and> end_node \<notin> closed
          \<and> (\<forall>c \<in> closed. c = start \<or> (in_bounds G c \<and> walkable (nodes G c)))
          \<and> (start \<noteq> end_node \<longrightarrow> start \<in> closed)
          \<and> (path \<noteq> [] \<longrightarrow> last path = end_node))"
proof -
  have one: "\<exists>path closed G'.
       search A G ident start end_node avoid_water = Some (path, closed, G')
     \<and> end_node \<notin> closed
     \<and> (\<forall>c \<in> closed. c = start \<or> (in_bounds G c \<and> walkable (nodes G c)))
     \<and> (start \<noteq> end_node \<longrightarrow> start \<in> closed)
     \<and> (path \<noteq> [] \<longrightarrow> last path = end_node)" for A
  proof -
    define s where "s = snd (search_loop A ident end_node avoid_water (init_state A ident G start end_node))"
    from search_result_path [OF assms] obtain path
      where res: "search A G ident start end_node avoid_water = Some (path, closed_set s, graph s)"
        and la: "path \<noteq> [] \<longrightarrow> last path = end_node"
      unfolding s_def by blast
    have "search_inv G start end_node s"
      unfolding s_def by (rule search_loop_inv)
    then have "cells_ok G start end_node s" by (simp add: search_inv_def)
    then have "end_node \<notin> closed_set s"
      and "\<forall>c \<in> closed_set s. c = start \<or> (in_bounds G c \<and> walkable (nodes G c))"
      unfolding cells_ok_def by blast+
    moreover have "start \<noteq> end_node \<longrightarrow> start \<in> closed_set s"
      unfolding s_def using start_is_closed by blast
    ultimately show ?thesis using res la by blast
  qed
  from one [of Dijkstra] one [of AStar] show ?thesis
    by (simp add: dijkstra_def a_star_def)
qed

text \<open>
  On the row of two cells whose first cell, the start, is water.
\<close>

theorem closed_set_contents_witness:
  "in_bounds wet_start (0, 0)
   \<and> \<not> walkable (nodes wet_start (0, 0))
   \<and> (\<exists>path closed G'.
         dijkstra wet_start address_xy (0, 0) (1, 0) True = Some (path, closed, G')
       \<and> (1, 0) \<notin> closed \<and> (0, 0) \<in> closed)
   \<and> (\<exists>path closed G'.
         a_star wet_start address_xy (0, 0) (1, 0) True = Some (path, closed, G')
       \<and> (1, 0) \<notin> closed \<and> (0, 0) \<in> closed)
   \<and> path_and_closed (dijkstra wet_start address_xy (0, 0) (1, 0) True)
       = Some ([(0, 0), (1, 0)], {(0, 0)})"
proof -
  have h: "in_bounds wet_start (0, 0)"
    by (simp add: wet_start_def in_bounds_def set_terrain_def Graph_init_def)
  have n: "\<not> walkable (nodes wet_start (0, 0))"
    by (simp add: wet_start_def eval_defs)
  have ne: "(0 :: int, 0 :: int) \<noteq> (1, 0)" by simp
  from closed_set_contents [OF h, of address_xy "(1, 0)" True] ne
  have d: "\<exists>path closed G'.
         dijkstra wet_start address_xy (0, 0) (1, 0) True = Some (path, closed, G')
       \<and> (1, 0) \<notin> closed \<and> (0, 0) \<in> closed"
    and a: "\<exists>path closed G'.
         a_star wet_start address_xy (0, 0) (1, 0) True = Some (path, closed, G')
       \<and> (1, 0) \<notin> closed \<and> (0, 0) \<in> closed"
    by blast+
  have w: "path_and_closed (dijkstra wet_start address_xy (0, 0) (1, 0) True)
     = Some ([(0, 0), (1, 0)], {(0, 0)})"
    by (simp add: wet_start_def eval_defs search_loop.simps reconstruct_loop.simps)
  show ?thesis
    by (intro conjI h n d a w)
qed

section \<open>A cell is pushed once\<close>

text \<open>
  C3. The claim asks for a new entry whenever the \<open>g_cost\<close> of a cell that is not closed
  improves. In the search on \<open>bug_grid\<close>, after two passes the cell \<open>(2, 0)\<close> has the
  \<open>g_cost\<close> \<open>16/5 * sqrt 2\<close>, about 4.53; the third pass improves it to \<open>7/2\<close>, the
  cell is not closed, and the queue still holds one entry for it, with the old key.
  In general, for either algorithm, \<open>relax\<close> leaves the queue as it is for a neighbour
  that the dictionary \<open>open_set_dict\<close> already holds under its identity.
\<close>

theorem improved_cell_is_not_pushed_again:
  assumes "inj ident"
  shows "g_cost (nodes (graph (bug_state (Suc (Suc 0)) ident avoid_water)) (2, 0)) = Fin (16 / 5 * sqrt 2)
       \<and> (2, 0) \<notin> closed_set (bug_state (Suc (Suc (Suc 0))) ident avoid_water)
       \<and> g_cost (nodes (graph (bug_state (Suc (Suc (Suc 0))) ident avoid_water)) (2, 0)) = Fin (7 / 2)
       \<and> filter (\<lambda>entry. snd (snd entry) = (2, 0))
            (open_set (bug_state (Suc (Suc (Suc 0))) ident avoid_water))
           = [(Fin (16 / 5 * sqrt 2), ident (2, 0), (2, 0))]
       \<and> (open_set_dict s (ident n) = Some n \<longrightarrow>
            open_set (relax A ident end_node current n s) = open_set s)"
proof -
  have "open_set_dict s (ident n) = Some n \<longrightarrow>
            open_set (relax A ident end_node current n s) = open_set s"
    by (simp add: relax_def Let_def)
  with bug_states [OF assms, of avoid_water] show ?thesis by blast
qed

text \<open>
  With the identities \<open>address_xy\<close>.
\<close>

theorem improved_cell_is_not_pushed_again_witness:
  "inj address_xy
   \<and> g_cost (nodes (graph (bug_state (Suc (Suc 0)) address_xy True)) (2, 0)) = Fin (16 / 5 * sqrt 2)
   \<and> (2, 0) \<notin> closed_set (bug_state (Suc (Suc (Suc 0))) address_xy True)
   \<and> g_cost (nodes (graph (bug_state (Suc (Suc (Suc 0))) address_xy True)) (2, 0)) = Fin (7 / 2)
   \<and> filter (\<lambda>entry. snd (snd entry) = (2, 0))
        (open_set (bug_state (Suc (Suc (Suc 0))) address_xy True))
       = [(Fin (16 / 5 * sqrt 2), address_xy (2, 0), (2, 0))]"
  using improved_cell_is_not_pushed_again [OF inj_address_xy, of True] inj_address_xy
  by blast

section \<open>Ties between entries\<close>

definition tagged :: "(cell \<Rightarrow> nat) \<Rightarrow> entry list \<Rightarrow> bool" where
  "tagged ident h \<longleftrightarrow> (\<forall>entry \<in> set h. fst (snd entry) = ident (snd (snd entry)))"

lemma relax_tagged: "tagged ident (open_set s) \<Longrightarrow> tagged ident (open_set (relax A ident e cur n s))"
  by (auto simp: tagged_def relax_def Let_def heappush_def)

lemma fold_relax_tagged:
  "tagged ident (open_set s) \<Longrightarrow> tagged ident (open_set (fold (relax A ident e cur) ns s))"
  by (induction ns arbitrary: s) (simp_all add: relax_tagged)

lemma heappop_tagged: "tagged ident h \<Longrightarrow> tagged ident (snd (heappop h))"
  using heappop_snd_set [of h] by (auto simp: tagged_def)

lemma iteration_tagged:
  assumes "tagged ident (open_set s)"
  shows "iteration A ident e av s = Continue s' \<Longrightarrow> tagged ident (open_set s')"
    and "iteration A ident e av s = Found c s' \<Longrightarrow> tagged ident (open_set s')"
  using heappop_tagged [OF assms]
  by (auto simp: iteration_def Let_def expand_def fold_relax_tagged split: if_splits)

lemma iterate_loop_tagged:
  "tagged ident (open_set s) \<Longrightarrow> tagged ident (open_set (iterate_loop k A ident e av s))"
proof (induction k arbitrary: s)
  case 0
  then show ?case by simp
next
  case (Suc k)
  show ?case
  proof (cases "iteration A ident e av s")
    case (Found c s')
    with iteration_tagged(2) [OF Suc.prems Found] Suc.prems show ?thesis
      by (cases "open_set s = []") simp_all
  next
    case (Continue s')
    from Suc.IH [OF iteration_tagged(1) [OF Suc.prems Continue]] Continue Suc.prems
    show ?thesis
      by (cases "open_set s = []") simp_all
  qed
qed

lemma init_state_tagged: "tagged ident (open_set (init_state A ident G start e))"
  by (simp add: tagged_def init_state_def Let_def)

lemma cless_linear: "cless a b \<or> a = b \<or> cless b a"
  by (cases a; cases b) auto

lemma cless_asym: "cless a b \<Longrightarrow> \<not> cless b a"
  by (cases a; cases b) auto

lemma entry_less_asym: "entry_less a b \<Longrightarrow> \<not> entry_less b a"
  by (cases a; cases b) (auto simp: entry_less_def cless_irrefl dest: cless_asym)

lemma entry_less_between: "entry_less x l \<Longrightarrow> entry_less x m \<or> entry_less m l"
proof -
  obtain kx ix nx where x: "x = (kx, ix, nx)" by (cases x) auto
  obtain kl il nl where l: "l = (kl, il, nl)" by (cases l) auto
  obtain km im nm where m: "m = (km, im, nm)" by (cases m) auto
  assume "entry_less x l"
  then have xl: "cless kx kl \<or> (kx = kl \<and> ix < il)"
    by (simp add: entry_less_def x l)
  consider "cless kx km" | "kx = km" | "cless km kx"
    using cless_linear [of kx km] by blast
  then show ?thesis
  proof cases
    case 1
    then show ?thesis by (simp add: entry_less_def x m)
  next
    case 2
    show ?thesis
    proof (cases "ix < im")
      case True
      with 2 show ?thesis by (simp add: entry_less_def x m)
    next
      case False
      with 2 xl show ?thesis by (auto simp: entry_less_def x l m)
    qed
  next
    case 3
    with xl have "cless km kl" by (auto intro: cless_trans)
    then show ?thesis by (simp add: entry_less_def l m)
  qed
qed

lemma least_entry_least: "x \<in> insert m (set es) \<Longrightarrow> \<not> entry_less x (least_entry m es)"
proof (induction es arbitrary: m x)
  case Nil
  then show ?case using entry_less_asym [of x x] by auto
next
  case (Cons e es)
  define m' where "m' = (if entry_less e m then e else m)"
  have l: "least_entry m (e # es) = least_entry m' es" by (simp add: m'_def)
  have base: "\<not> entry_less m' (least_entry m' es)"
    by (rule Cons.IH) simp
  have em: "\<not> entry_less m m'" "\<not> entry_less e m'"
    using entry_less_asym [of e m] entry_less_asym [of m m] entry_less_asym [of e e]
    by (auto simp: m'_def)
  show ?case
  proof (cases "x \<in> set es")
    case True
    then show ?thesis unfolding l by (intro Cons.IH) simp
  next
    case False
    with Cons.prems have "x = m \<or> x = e" by auto
    with em have "\<not> entry_less x m'" by auto
    with base entry_less_between [of x "least_entry m' es" m'] show ?thesis
      unfolding l by blast
  qed
qed

lemma heappop_least:
  assumes "h \<noteq> []"
  shows "fst (heappop h) \<in> set h \<and> (\<forall>x \<in> set h. \<not> entry_less x (fst (heappop h)))"
proof -
  from assms obtain m es where h: "h = m # es" by (cases h) auto
  have "\<forall>x \<in> set h. \<not> entry_less x (least_entry m es)"
    using least_entry_least [of _ m es] by (simp add: h)
  with heappop_fst_mem [OF assms] show ?thesis
    by (simp add: heappop_def h Let_def)
qed

text \<open>
  C4, as stated, fails: the second key of an entry is the identity of the node, and the
  result depends on it. On the grid \<open>tie_grid\<close> the two neighbours of the start cell
  have the same key; with the identities \<open>address_xy\<close> the path returned goes over
  \<open>(0, 1)\<close>, with \<open>address_yx\<close> over \<open>(1, 0)\<close>, for \<open>dijkstra\<close> and for \<open>a_star\<close>. Both
  assignments are injective.
\<close>

theorem identity_changes_result_counterexample:
  "inj address_xy \<and> inj address_yx
   \<and> path_and_closed (dijkstra tie_grid address_xy (0, 0) (1, 1) True)
       = Some ([(0, 0), (0, 1), (1, 1)], {(1, 0), (0, 1), (0, 0)})
   \<and> path_and_closed (dijkstra tie_grid address_yx (0, 0) (1, 1) True)
       = Some ([(0, 0), (1, 0), (1, 1)], {(0, 1), (1, 0), (0, 0)})
   \<and> path_and_closed (dijkstra tie_grid address_xy (0, 0) (1, 1) True)
       \<noteq> path_and_closed (dijkstra tie_grid address_yx (0, 0) (1, 1) True)
   \<and> path_and_closed (a_star tie_grid address_xy (0, 0) (1, 1) True)
       = Some ([(0, 0), (0, 1), (1, 1)], {(1, 0), (0, 1), (0, 0)})
   \<and> path_and_closed (a_star tie_grid address_yx (0, 0) (1, 1) True)
       = Some ([(0, 0), (1, 0), (1, 1)], {(0, 1), (1, 0), (0, 0)})
   \<and> path_and_closed (a_star tie_grid address_xy (0, 0) (1, 1) True)
       \<noteq> path_and_closed (a_star tie_grid address_yx (0, 0) (1, 1) True)"
proof -
  have a: "path_and_closed (dijkstra tie_grid address_xy (0, 0) (1, 1) True)
       = Some ([(0, 0), (0, 1), (1, 1)], {(1, 0), (0, 1), (0, 0)})"
    using sqrt2_lower sqrt2_upper
    by (simp add: tie_grid_def eval_defs search_loop.simps reconstruct_loop.simps)
  have b: "path_and_closed (dijkstra tie_grid address_yx (0, 0) (1, 1) True)
       = Some ([(0, 0), (1, 0), (1, 1)], {(0, 1), (1, 0), (0, 0)})"
    using sqrt2_lower sqrt2_upper
    by (simp add: tie_grid_def eval_defs search_loop.simps reconstruct_loop.simps)
  have c: "path_and_closed (a_star tie_grid address_xy (0, 0) (1, 1) True)
       = Some ([(0, 0), (0, 1), (1, 1)], {(1, 0), (0, 1), (0, 0)})"
    using sqrt2_lower sqrt2_upper
    by (simp add: tie_grid_def eval_defs search_loop.simps reconstruct_loop.simps)
  have d: "path_and_closed (a_star tie_grid address_yx (0, 0) (1, 1) True)
       = Some ([(0, 0), (1, 0), (1, 1)], {(0, 1), (1, 0), (0, 0)})"
    using sqrt2_lower sqrt2_upper
    by (simp add: tie_grid_def eval_defs search_loop.simps reconstruct_loop.simps)
  show ?thesis
    unfolding a b c d using inj_address_xy inj_address_yx by simp
qed

text \<open>
  C4, amended. In both algorithms, in every state of a search, each entry of the queue
  carries the identity of its node as second component; \<open>heappop\<close> returns an entry of
  the queue than which no entry is less; and between two entries with the same key the
  one with the smaller identity is the lesser. The result of a search is thus a
  function of the grid, the start, the end, the flag and the identities of the nodes.
\<close>

theorem ties_broken_by_identity:
  "(\<forall>entry \<in> set (open_set (iterate_loop k A ident end_node avoid_water
                                 (init_state A ident G start end_node))).
       fst (snd entry) = ident (snd (snd entry)))
   \<and> (h \<noteq> [] \<longrightarrow>
        fst (heappop h) \<in> set h \<and> (\<forall>x \<in> set h. \<not> entry_less x (fst (heappop h))))
   \<and> (fst a = fst b \<longrightarrow> entry_less a b = (fst (snd a) < fst (snd b)))"
proof -
  have "tagged ident (open_set (iterate_loop k A ident end_node avoid_water
                                 (init_state A ident G start end_node)))"
    by (rule iterate_loop_tagged [OF init_state_tagged])
  then have "\<forall>entry \<in> set (open_set (iterate_loop k A ident end_node avoid_water
                                 (init_state A ident G start end_node))).
       fst (snd entry) = ident (snd (snd entry))"
    by (simp add: tagged_def)
  moreover have "fst a = fst b \<longrightarrow> entry_less a b = (fst (snd a) < fst (snd b))"
    by (simp add: entry_less_def cless_irrefl)
  ultimately show ?thesis
    using heappop_least [of h] by blast
qed

lemma tie_state:
  "open_set (iterate_loop (Suc 0) Dijkstra address_xy (1, 1) True
               (init_state Dijkstra address_xy tie_grid (0, 0) (1, 1)))
     = [(Fin 1, 3, (0, 1)), (Fin 1, 5, (1, 0)), (Fin (5 / 2 * sqrt 2), 12, (1, 1))]"
  using sqrt2_lower sqrt2_upper
  by (simp add: tie_grid_def eval_defs)

text \<open>
  On \<open>tie_grid\<close> after the first pass, with the identities \<open>address_xy\<close>.
\<close>

theorem ties_broken_by_identity_witness:
  "open_set (iterate_loop (Suc 0) Dijkstra address_xy (1, 1) True
               (init_state Dijkstra address_xy tie_grid (0, 0) (1, 1)))
     = [(Fin 1, 3, (0, 1)), (Fin 1, 5, (1, 0)), (Fin (5 / 2 * sqrt 2), 12, (1, 1))]
   \<and> address_xy (0, 1) = 3 \<and> address_xy (1, 0) = 5 \<and> address_xy (1, 1) = 12
   \<and> fst (heappop [(Fin 1, 3, (0, 1)), (Fin 1, 5, (1, 0)), (Fin (5 / 2 * sqrt 2), 12, (1, 1))])
       = (Fin 1, 3, (0, 1))
   \<and> \<not> entry_less (Fin 1, 5, (1, 0))
         (fst (heappop [(Fin 1, 3, (0, 1)), (Fin 1, 5, (1, 0)), (Fin (5 / 2 * sqrt 2), 12, (1, 1))]))
   \<and> entry_less (Fin 1, 3, (0, 1)) (Fin 1, 5, (1, 0))"
proof -
  define S where "S = iterate_loop (Suc 0) Dijkstra address_xy (1, 1) True
               (init_state Dijkstra address_xy tie_grid (0, 0) (1, 1))"
  define L :: "entry list"
    where "L = [(Fin 1, 3, (0, 1)), (Fin 1, 5, (1, 0)), (Fin (5 / 2 * sqrt 2), 12, (1, 1))]"
  note t = ties_broken_by_identity [where k = "Suc 0" and A = Dijkstra and ident = address_xy
      and end_node = "(1, 1)" and avoid_water = True and G = tie_grid and start = "(0, 0)"
      and h = L and a = "(Fin 1, 3, (0, 1))" and b = "(Fin 1, 5, (1, 0))", folded S_def]
  have ts: "open_set S = L"
    unfolding S_def L_def by (rule tie_state)
  have ne: "L \<noteq> []" by (simp add: L_def)
  from t have "\<forall>entry \<in> set (open_set S). fst (snd entry) = address_xy (snd (snd entry))"
    by blast
  then have ad: "address_xy (0, 1) = 3" "address_xy (1, 0) = 5" "address_xy (1, 1) = 12"
    unfolding ts by (simp_all add: L_def)
  from t ne have least: "\<forall>x \<in> set L. \<not> entry_less x (fst (heappop L))"
    by blast
  then have nl: "\<not> entry_less (Fin 1, 5, (1, 0)) (fst (heappop L))"
    by (simp add: L_def)
  have pop: "fst (heappop L) = (Fin 1, 3, (0, 1))"
    using sqrt2_lower sqrt2_upper by (simp add: L_def heappop_def entry_less_def)
  from t have "fst (Fin 1, 3 :: nat, (0 :: int, 1 :: int)) = fst (Fin 1, 5 :: nat, (1 :: int, 0 :: int))
      \<longrightarrow> entry_less (Fin 1, 3, (0, 1)) (Fin 1, 5, (1, 0))
          = (fst (snd (Fin 1, 3 :: nat, (0 :: int, 1 :: int))) < fst (snd (Fin 1, 5 :: nat, (1 :: int, 0 :: int))))"
    by blast
  then have el: "entry_less (Fin 1, 3, (0, 1)) (Fin 1, 5, (1, 0))" by simp
  show ?thesis
    unfolding S_def [symmetric] L_def [symmetric]
    by (intro conjI ts ad pop nl el)
qed

section \<open>Parent links\<close>

lemma relax_changes:
  "nodes (graph (relax A ident e cur n s)) c \<noteq> nodes (graph s) c \<longrightarrow>
     c = n \<and> parent (nodes (graph (relax A ident e cur n s)) c) = Some cur
     \<and> cless (g_cost (nodes (graph (relax A ident e cur n s)) c)) (g_cost (nodes (graph s) c))"
  by (cases A) (auto simp: relax_def Let_def improve_def)

text \<open>
  C8. For a start cell of the grid and either algorithm: \<open>relax\<close> changes a node only by
  giving the neighbour the current node as parent and a \<open>g_cost\<close> smaller than the one
  it had; after any number of passes through the loop, the parent of a cell of the grid
  is a cell of the grid with a smaller \<open>g_cost\<close>, so following the parent links from any
  cell of the grid ends and \<open>reconstruct_path\<close> returns; and \<open>dijkstra\<close> and \<open>a_star\<close>
  return.
\<close>

theorem parent_links_decrease:
  assumes "in_bounds G start"
  shows "(nodes (graph (relax A ident end_node current neighbor s)) c
            \<noteq> nodes (graph s) c \<longrightarrow>
           c = neighbor
         \<and> parent (nodes (graph (relax A ident end_node current neighbor s)) c) = Some current
         \<and> cless (g_cost (nodes (graph (relax A ident end_node current neighbor s)) c))
                  (g_cost (nodes (graph s) c)))
       \<and> (\<forall>c p. in_bounds G c \<longrightarrow>
             parent (nodes (graph (iterate_loop k A ident end_node avoid_water
                                     (init_state A ident G start end_node))) c) = Some p \<longrightarrow>
             in_bounds G p
           \<and> cless (g_cost (nodes (graph (iterate_loop k A ident end_node avoid_water
                                             (init_state A ident G start end_node))) p))
                    (g_cost (nodes (graph (iterate_loop k A ident end_node avoid_water
                                             (init_state A ident G start end_node))) c)))
       \<and> (\<forall>c. in_bounds G c \<longrightarrow>
             (\<exists>path. reconstruct_path (graph (iterate_loop k A ident end_node avoid_water
                                                 (init_state A ident G start end_node))) c
                       = Some path))
       \<and> (\<exists>path closed G'. dijkstra G ident start end_node avoid_water = Some (path, closed, G'))
       \<and> (\<exists>path closed G'. a_star G ident start end_node avoid_water = Some (path, closed, G'))"
proof -
  define sk where "sk = iterate_loop k A ident end_node avoid_water (init_state A ident G start end_node)"
  have inv: "search_inv G start end_node sk"
    unfolding sk_def by (rule iterate_loop_inv [OF init_state_inv])
  have chain: "\<forall>c p. in_bounds G c \<longrightarrow> parent (nodes (graph sk) c) = Some p \<longrightarrow>
             in_bounds G p \<and> cless (g_cost (nodes (graph sk) p)) (g_cost (nodes (graph sk) c))"
    using inv_parent_step [OF inv assms] by blast
  have ends: "\<forall>c. in_bounds G c \<longrightarrow> (\<exists>path. reconstruct_path (graph sk) c = Some path)"
    using inv_reconstruct_returns [OF inv assms] by blast
  have d: "\<exists>path closed G'. dijkstra G ident start end_node avoid_water = Some (path, closed, G')"
    using search_result [OF assms, of Dijkstra ident end_node avoid_water]
    unfolding dijkstra_def by blast
  have a: "\<exists>path closed G'. a_star G ident start end_node avoid_water = Some (path, closed, G')"
    using search_result [OF assms, of AStar ident end_node avoid_water]
    unfolding a_star_def by blast
  show ?thesis
    using relax_changes [of A ident end_node current neighbor s c] chain ends d a
    unfolding sk_def by blast
qed

lemma two_cells_state:
  "parent (nodes (graph (iterate_loop (Suc 0) Dijkstra address_xy (1, 0) True
                           (init_state Dijkstra address_xy (Graph_init 2 1) (0, 0) (1, 0)))) (1, 0))
     = Some (0, 0)
   \<and> g_cost (nodes (graph (iterate_loop (Suc 0) Dijkstra address_xy (1, 0) True
                           (init_state Dijkstra address_xy (Graph_init 2 1) (0, 0) (1, 0)))) (0, 0))
     = Fin 0
   \<and> g_cost (nodes (graph (iterate_loop (Suc 0) Dijkstra address_xy (1, 0) True
                           (init_state Dijkstra address_xy (Graph_init 2 1) (0, 0) (1, 0)))) (1, 0))
     = Fin 1
   \<and> reconstruct_path (graph (iterate_loop (Suc 0) Dijkstra address_xy (1, 0) True
                           (init_state Dijkstra address_xy (Graph_init 2 1) (0, 0) (1, 0)))) (1, 0)
     = Some [(0, 0), (1, 0)]"
  by (simp add: eval_defs reconstruct_loop.simps)

text \<open>
  On a row of two normal cells, after the first pass.
\<close>

theorem parent_links_decrease_witness:
  "in_bounds (Graph_init 2 1) (0, 0) \<and> in_bounds (Graph_init 2 1) (1, 0)
   \<and> parent (nodes (graph (iterate_loop (Suc 0) Dijkstra address_xy (1, 0) True
                           (init_state Dijkstra address_xy (Graph_init 2 1) (0, 0) (1, 0)))) (1, 0))
     = Some (0, 0)
   \<and> cless (g_cost (nodes (graph (iterate_loop (Suc 0) Dijkstra address_xy (1, 0) True
                           (init_state Dijkstra address_xy (Graph_init 2 1) (0, 0) (1, 0)))) (0, 0)))
            (g_cost (nodes (graph (iterate_loop (Suc 0) Dijkstra address_xy (1, 0) True
                           (init_state Dijkstra address_xy (Graph_init 2 1) (0, 0) (1, 0)))) (1, 0)))
   \<and> (\<exists>path. reconstruct_path (graph (iterate_loop (Suc 0) Dijkstra address_xy (1, 0) True
                           (init_state Dijkstra address_xy (Graph_init 2 1) (0, 0) (1, 0)))) (1, 0)
                = Some path)
   \<and> reconstruct_path (graph (iterate_loop (Suc 0) Dijkstra address_xy (1, 0) True
                           (init_state Dijkstra address_xy (Graph_init 2 1) (0, 0) (1, 0)))) (1, 0)
       = Some [(0, 0), (1, 0)]"
proof -
  define S where "S = iterate_loop (Suc 0) Dijkstra address_xy (1, 0) True
                           (init_state Dijkstra address_xy (Graph_init 2 1) (0, 0) (1, 0))"
  have h: "in_bounds (Graph_init 2 1) (0, 0)" "in_bounds (Graph_init 2 1) (1, 0)"
    by (simp_all add: in_bounds_def Graph_init_def)
  note t = parent_links_decrease [OF h(1), where k = "Suc 0" and A = Dijkstra
      and ident = address_xy and end_node = "(1, 0)" and avoid_water = True, folded S_def]
  have par: "parent (nodes (graph S) (1, 0)) = Some (0, 0)"
    and rec: "reconstruct_path (graph S) (1, 0) = Some [(0, 0), (1, 0)]"
    unfolding S_def using two_cells_state by blast+
  from t h(2) par have lt: "cless (g_cost (nodes (graph S) (0, 0))) (g_cost (nodes (graph S) (1, 0)))"
    by blast
  from t h(2) have ex: "\<exists>path. reconstruct_path (graph S) (1, 0) = Some path"
    by blast
  show ?thesis
    unfolding S_def [symmetric]
    by (intro conjI h par lt ex rec)
qed

section \<open>Searching again\<close>

text \<open>
  C9. For a start cell of the grid, a search run again on the graph that the first run
  left behind returns the same path and the same closed set (and leaves the same graph
  behind), for \<open>dijkstra\<close> and for \<open>a_star\<close>; and the other algorithm, run on the graph
  left behind, returns what it returns on the graph before the first run.
\<close>

theorem repeated_search_same_result:
  assumes "in_bounds G start"
  shows "(\<exists>path closed G'.
            dijkstra G ident start end_node avoid_water = Some (path, closed, G')
          \<and> dijkstra G' ident start end_node avoid_water = Some (path, closed, G')
          \<and> a_star G' ident start end_node avoid_water = a_star G ident start end_node avoid_water)
       \<and> (\<exists>path closed G'.
            a_star G ident start end_node avoid_water = Some (path, closed, G')
          \<and> a_star G' ident start end_node avoid_water = Some (path, closed, G')
          \<and> dijkstra G' ident start end_node avoid_water = dijkstra G ident start end_node avoid_water)"
proof -
  have one: "\<exists>path closed G'.
       search A G ident start end_node avoid_water = Some (path, closed, G')
     \<and> search A G' ident start end_node avoid_water = Some (path, closed, G')
     \<and> search B G' ident start end_node avoid_water = search B G ident start end_node avoid_water"
    for A B
  proof -
    define s where "s = snd (search_loop A ident end_node avoid_water (init_state A ident G start end_node))"
    from search_result [OF assms] obtain path
      where res: "search A G ident start end_node avoid_water = Some (path, closed_set s, graph s)"
      unfolding s_def by blast
    have "search_inv G start end_node s"
      unfolding s_def by (rule search_loop_inv)
    then have rs: "reset_nodes (graph s) = reset_nodes G"
      using assms by (rule inv_reset_nodes)
    have "search A (graph s) ident start end_node avoid_water = Some (path, closed_set s, graph s)"
      using search_reset_cong [OF rs] res by simp
    moreover have "search B (graph s) ident start end_node avoid_water
         = search B G ident start end_node avoid_water"
      using rs by (rule search_reset_cong)
    ultimately show ?thesis using res by blast
  qed
  from one [of Dijkstra AStar] one [of AStar Dijkstra] show ?thesis
    by (simp add: dijkstra_def a_star_def)
qed

text \<open>
  On \<open>tie_grid\<close>, from corner to corner.
\<close>

theorem repeated_search_same_result_witness:
  "in_bounds tie_grid (0, 0)
   \<and> (\<exists>path closed G'.
         dijkstra tie_grid address_xy (0, 0) (1, 1) True = Some (path, closed, G')
       \<and> dijkstra G' address_xy (0, 0) (1, 1) True = Some (path, closed, G'))
   \<and> (\<exists>path closed G'.
         a_star tie_grid address_xy (0, 0) (1, 1) True = Some (path, closed, G')
       \<and> a_star G' address_xy (0, 0) (1, 1) True = Some (path, closed, G'))"
proof -
  have h: "in_bounds tie_grid (0, 0)"
    by (simp add: tie_grid_def in_bounds_def set_terrain_def Graph_init_def)
  from repeated_search_same_result [OF h, of address_xy "(1, 1)" True] h
  show ?thesis by blast
qed

end
